theory Spec2Isabelle
  imports Main "HOL-Library.Word"
begin

unbundle bit_operations_syntax

text \<open>
  A shallow embedding of \<^verbatim>\<open>select\<close> of gocols (\<^verbatim>\<open>select/select.go\<close>, with
  \<^verbatim>\<open>DTsize\<close> of its \<^verbatim>\<open>config\<close> package): the program copies a dataset of
  compressed column files, bucket by bucket, and keeps the rows whose key column value
  is in a given set of identifiers. The functions of the program keep their names; a
  loop of a function \<open>f\<close> is \<open>f_loop\<close>. The functions of the Go library that the
  program calls are given as the library defines them. First come the definitions,
  function by function, then what is proved of them.
\<close>

section \<open>Basic types\<close>

type_synonym byte = "8 word"
type_synonym uint64 = "64 word"

text \<open>
  Every \<^verbatim>\<open>panic\<close> of the program and every error value of the Go library
  calls it makes is a constructor of \<open>error\<close>. A function of the program that can
  panic returns \<open>error + 'a\<close>, with \<open>Inl\<close> for the panic.
\<close>

datatype error =
    EOF
  | ErrUnexpectedEOF
  | ErrOverflow
  | IndexOutOfRange
  | ErrSyntax
  | ErrRange
  | ErrNotExist
  | ErrTooLong
  | VarintNotImplemented

section \<open>Identifier membership: \<^verbatim>\<open>contains\<close> (select.go, lines 120-133)\<close>

text \<open>
  \<^verbatim>\<open>sort.Search(n, f)\<close> of the Go library: the loop
  \<^verbatim>\<open>i, j := 0, n; for i < j { h := int(uint(i+j) >> 1); if !f(h) { i = h + 1 } else { j = h } }; return i\<close>.
  Slice lengths are far below the range of \<^verbatim>\<open>int\<close>, so indices are natural numbers.
\<close>

function Search_loop :: "(nat \<Rightarrow> bool) \<Rightarrow> nat \<Rightarrow> nat \<Rightarrow> nat" where
  "Search_loop f i j =
     (if i < j
      then (if \<not> f ((i + j) div 2)
            then Search_loop f ((i + j) div 2 + 1) j
            else Search_loop f i ((i + j) div 2))
      else i)"
  by pat_completeness auto
termination
  by (relation "measure (\<lambda>(f, i, j). j - i)") auto

definition Search :: "nat \<Rightarrow> (nat \<Rightarrow> bool) \<Rightarrow> nat" where
  "Search n f = Search_loop f 0 n"

text \<open>
  \<^verbatim>\<open>contains(a, v)\<close>: the closure \<^verbatim>\<open>f\<close> reads \<^verbatim>\<open>a[i]\<close> only at the
  indices \<^verbatim>\<open>sort.Search\<close> probes, which lie below \<^verbatim>\<open>len(a)\<close>.
\<close>

definition contains :: "uint64 list \<Rightarrow> uint64 \<Rightarrow> bool" where
  "contains a v =
     (let f = (\<lambda>i. a ! i \<ge> v);
          k = Search (length a) f
      in if k \<ge> length a then False else a ! k = v)"

section \<open>Byte streams and fixed-width decoding\<close>

text \<open>
  A reader is the list of bytes of the decompressed stream that have not been consumed
  yet; the snappy framing below it is not modelled. \<^verbatim>\<open>io.ReadFull(r, buf)\<close> with
  \<^verbatim>\<open>len(buf) = n\<close> returns the next \<open>n\<close> bytes and the advanced reader. It fails
  with \<^verbatim>\<open>io.EOF\<close> when no byte could be read and with
  \<^verbatim>\<open>io.ErrUnexpectedEOF\<close> when the stream ends inside the buffer; for \<open>n = 0\<close>
  it reads nothing and succeeds.
\<close>

definition ReadFull :: "byte list \<Rightarrow> nat \<Rightarrow> error + (byte list \<times> byte list)" where
  "ReadFull rdr n =
     (if n \<le> length rdr then Inr (take n rdr, drop n rdr)
      else if rdr = [] then Inl EOF
      else Inl ErrUnexpectedEOF)"

text \<open>\<^verbatim>\<open>binary.LittleEndian.Uint64\<close> and \<^verbatim>\<open>binary.LittleEndian.PutUint64\<close>.\<close>

definition Uint64 :: "byte list \<Rightarrow> uint64" where
  "Uint64 b =
     ucast (b ! 0) OR push_bit 8 (ucast (b ! 1)) OR push_bit 16 (ucast (b ! 2))
       OR push_bit 24 (ucast (b ! 3)) OR push_bit 32 (ucast (b ! 4))
       OR push_bit 40 (ucast (b ! 5)) OR push_bit 48 (ucast (b ! 6))
       OR push_bit 56 (ucast (b ! 7))"

definition PutUint64 :: "uint64 \<Rightarrow> byte list" where
  "PutUint64 v =
     [ucast v, ucast (drop_bit 8 v), ucast (drop_bit 16 v), ucast (drop_bit 24 v),
      ucast (drop_bit 32 v), ucast (drop_bit 40 v), ucast (drop_bit 48 v),
      ucast (drop_bit 56 v)]"

text \<open>
  \<^verbatim>\<open>binary.Read(rdr, binary.LittleEndian, &x)\<close> for \<^verbatim>\<open>x uint64\<close>: eight bytes
  through \<^verbatim>\<open>io.ReadFull\<close>, then \<^verbatim>\<open>Uint64\<close>.
\<close>

definition Read_uint64 :: "byte list \<Rightarrow> error + (uint64 \<times> byte list)" where
  "Read_uint64 rdr =
     (case ReadFull rdr 8 of
        Inl e \<Rightarrow> Inl e
      | Inr (bs, rdr') \<Rightarrow> Inr (Uint64 bs, rdr'))"

section \<open>A bucket directory\<close>

text \<open>
  A bucket directory (\<^verbatim>\<open>config.BucketPath(bn, dir)\<close>) holds \<^verbatim>\<open>dtypes.json\<close> and
  one file \<^verbatim>\<open>vname.bin.sz\<close> per column. \<open>dtypes_json\<close> is what
  \<^verbatim>\<open>config.ReadDtypes\<close> decodes from the file (\<open>None\<close>: the file is missing or
  malformed), as the entries of the Go map in the order in which \<^verbatim>\<open>range\<close> visits
  them, an order the Go runtime chooses. \<open>columns\<close> maps a column name to the
  decompressed content of its file.
\<close>

record bucket =
  dtypes_json :: "(string \<times> string) list option"
  columns :: "string \<rightharpoonup> byte list"

section \<open>The selection mask: \<^verbatim>\<open>getix\<close> (select.go, lines 136-167)\<close>

text \<open>
  The loop of \<^verbatim>\<open>getix\<close> with its three variables \<^verbatim>\<open>ix\<close>, \<^verbatim>\<open>m\<close> and
  \<^verbatim>\<open>n\<close>; \<^verbatim>\<open>io.EOF\<close> leaves the loop, any other error panics.
\<close>

function getix_loop ::
  "uint64 list \<Rightarrow> byte list \<Rightarrow> bool list \<Rightarrow> nat \<Rightarrow> nat \<Rightarrow> error + (bool list \<times> nat \<times> nat)" where
  "getix_loop ids rdr ix m n =
     (case Read_uint64 rdr of
        Inl e \<Rightarrow> if e = EOF then Inr (ix, m, n) else Inl e
      | Inr (x, rdr') \<Rightarrow>
          getix_loop ids rdr' (ix @ [contains ids x])
            (if contains ids x then m + 1 else m) (n + 1))"
  by pat_completeness auto
termination
  by (relation "measure (\<lambda>(ids, rdr, ix, m, n). length rdr)")
     (auto simp: Read_uint64_def ReadFull_def split: if_splits)

text \<open>
  \<^verbatim>\<open>getix(bn)\<close>: opens the file of the column \<^verbatim>\<open>idvar\<close> in the source bucket
  (a panic when it cannot be opened) and returns \<^verbatim>\<open>ix\<close>; the counters only go to
  the log.
\<close>

definition getix :: "uint64 list \<Rightarrow> string \<Rightarrow> bucket \<Rightarrow> error + bool list" where
  "getix ids idvar src =
     (case columns src idvar of
        None \<Rightarrow> Inl ErrNotExist
      | Some rdr \<Rightarrow>
          (case getix_loop ids rdr [] 0 0 of
             Inl e \<Rightarrow> Inl e
           | Inr (ix, m, n) \<Rightarrow> Inr ix))"

section \<open>The fixed-width transcoder: \<^verbatim>\<open>dofixedwidth\<close> (select.go, lines 173-201)\<close>

text \<open>
  The loop over the mask. The writer is the list of bytes written so far;
  \<^verbatim>\<open>binary.Write(wtr, binary.LittleEndian, b)\<close> with \<^verbatim>\<open>b []byte\<close> appends the
  bytes of \<^verbatim>\<open>b\<close> as they are. A failed read panics; the deferred
  \<^verbatim>\<open>wtr.Close()\<close> still flushes what was written, so the result is the output
  together with the panic, if any. Failures of the output device are not modelled.
\<close>

fun dofixedwidth_loop ::
  "nat \<Rightarrow> bool list \<Rightarrow> byte list \<Rightarrow> byte list \<Rightarrow> byte list \<times> error option" where
  "dofixedwidth_loop w [] rdr wtr = (wtr, None)"
| "dofixedwidth_loop w (ii # ix) rdr wtr =
     (case ReadFull rdr w of
        Inl e \<Rightarrow> (wtr, Some e)
      | Inr (b, rdr') \<Rightarrow>
          if \<not> ii then dofixedwidth_loop w ix rdr' wtr
          else dofixedwidth_loop w ix rdr' (wtr @ b))"

text \<open>
  \<^verbatim>\<open>dofixedwidth(bn, vname, w, ix)\<close>: \<^verbatim>\<open>getreader\<close> opens the column's file in
  the source bucket (a panic when it is missing, before the output file is created),
  \<^verbatim>\<open>getwriter\<close> creates the file in the target bucket, truncating an old one.
\<close>

definition dofixedwidth ::
  "bucket \<Rightarrow> bucket \<Rightarrow> string \<Rightarrow> nat \<Rightarrow> bool list \<Rightarrow> bucket \<times> error option" where
  "dofixedwidth src tgt vname w ix =
     (case columns src vname of
        None \<Rightarrow> (tgt, Some ErrNotExist)
      | Some rdr \<Rightarrow>
          (case dofixedwidth_loop w ix rdr [] of
             (out, e) \<Rightarrow> (tgt\<lparr>columns := (columns tgt)(vname \<mapsto> out)\<rparr>, e)))"

section \<open>The uvarint transcoder: \<^verbatim>\<open>douvarint\<close> (select.go, lines 230-260)\<close>

text \<open>
  \<^verbatim>\<open>binary.ReadUvarint\<close> of the Go library (as of Go 1.15), reading byte by byte:
  \<^verbatim>\<open>
  for i := 0; i < MaxVarintLen64; i++ {
      b, err := r.ReadByte()
      if err != nil { if i > 0 && err == io.EOF { err = io.ErrUnexpectedEOF }; return x, err }
      if b < 0x80 {
          if i == MaxVarintLen64-1 && b > 1 { return x, errOverflow }
          return x | uint64(b)<<s, nil }
      x |= uint64(b&0x7f) << s
      s += 7 }
  return x, errOverflow
  \<close>
  with \<^verbatim>\<open>MaxVarintLen64 = 10\<close>.
\<close>

fun ReadUvarint_loop ::
  "byte list \<Rightarrow> nat \<Rightarrow> uint64 \<Rightarrow> nat \<Rightarrow> error + (uint64 \<times> byte list)" where
  "ReadUvarint_loop [] i x s =
     (if i < 10 then Inl (if i > 0 then ErrUnexpectedEOF else EOF) else Inl ErrOverflow)"
| "ReadUvarint_loop (b # br) i x s =
     (if i < 10
      then (if b < 0x80
            then (if i = 9 \<and> b > 1 then Inl ErrOverflow
                  else Inr (x OR push_bit s (ucast b), br))
            else ReadUvarint_loop br (i + 1) (x OR push_bit s (ucast (b AND 0x7f))) (s + 7))
      else Inl ErrOverflow)"

definition ReadUvarint :: "byte list \<Rightarrow> error + (uint64 \<times> byte list)" where
  "ReadUvarint br = ReadUvarint_loop br 0 0 0"

text \<open>
  \<^verbatim>\<open>binary.PutUvarint(buf, x)\<close> of the Go library:
  \<^verbatim>\<open>
  i := 0
  for x >= 0x80 { buf[i] = byte(x) | 0x80; x >>= 7; i++ }
  buf[i] = byte(x)
  return i + 1
  \<close>
  An index beyond the buffer is a run-time panic (``If the buffer is too small,
  PutUvarint will panic'').
\<close>

function PutUvarint_loop :: "byte list \<Rightarrow> uint64 \<Rightarrow> nat \<Rightarrow> error + (byte list \<times> nat)" where
  "PutUvarint_loop buf x i =
     (if x \<ge> 0x80
      then (if i < length buf
            then PutUvarint_loop (buf[i := ucast x OR 0x80]) (drop_bit 7 x) (i + 1)
            else Inl IndexOutOfRange)
      else (if i < length buf then Inr (buf[i := ucast x], i + 1)
            else Inl IndexOutOfRange))"
  by pat_completeness auto
termination
proof (relation "measure (\<lambda>(buf, x, i). unat x)")
  show "wf (measure (\<lambda>(buf, x, i). unat x))" by simp
next
  fix buf :: "byte list" and x :: uint64 and i :: nat
  assume "0x80 \<le> x"
  then have "128 \<le> unat x" by (simp add: word_le_nat_alt)
  then have "unat x div 2 ^ 7 < unat x" by simp
  then show "((buf[i := ucast x OR 0x80], drop_bit 7 x, i + 1), (buf, x, i))
               \<in> measure (\<lambda>(buf, x, i). unat x)"
    by (simp add: drop_bit_eq_div unat_div)
qed

definition PutUvarint :: "byte list \<Rightarrow> uint64 \<Rightarrow> error + (byte list \<times> nat)" where
  "PutUvarint buf x = PutUvarint_loop buf x 0"

text \<open>
  The loop over the mask, with the scratch buffer \<^verbatim>\<open>b\<close> that every iteration
  reuses; \<^verbatim>\<open>wtr.Write(b[0:m])\<close> appends the first \<^verbatim>\<open>m\<close> bytes of it.
\<close>

fun douvarint_loop ::
  "bool list \<Rightarrow> byte list \<Rightarrow> byte list \<Rightarrow> byte list \<Rightarrow> byte list \<times> error option" where
  "douvarint_loop [] br b wtr = (wtr, None)"
| "douvarint_loop (ii # ix) br b wtr =
     (case ReadUvarint br of
        Inl e \<Rightarrow> (wtr, Some e)
      | Inr (x, br') \<Rightarrow>
          if \<not> ii then douvarint_loop ix br' b wtr
          else (case PutUvarint b x of
                  Inl e \<Rightarrow> (wtr, Some e)
                | Inr (b', m) \<Rightarrow> douvarint_loop ix br' b' (wtr @ take m b')))"

text \<open>
  \<^verbatim>\<open>douvarint(bn, vname, ix)\<close>: reader and writer as in \<^verbatim>\<open>dofixedwidth\<close>, and
  \<^verbatim>\<open>b := make([]byte, 8)\<close>.
\<close>

definition douvarint ::
  "bucket \<Rightarrow> bucket \<Rightarrow> string \<Rightarrow> bool list \<Rightarrow> bucket \<times> error option" where
  "douvarint src tgt vname ix =
     (case columns src vname of
        None \<Rightarrow> (tgt, Some ErrNotExist)
      | Some rdr \<Rightarrow>
          (case douvarint_loop ix rdr (replicate 8 0) [] of
             (out, e) \<Rightarrow> (tgt\<lparr>columns := (columns tgt)(vname \<mapsto> out)\<rparr>, e)))"

section \<open>One bucket: \<^verbatim>\<open>dobucket\<close> (select.go, lines 279-300)\<close>

text \<open>
  \<^verbatim>\<open>config.DTsize\<close>, a \<^verbatim>\<open>map[string]int\<close>. Indexing a Go map with a key it does
  not hold yields the zero value of the value type.
\<close>

definition DTsize :: "string \<rightharpoonup> nat" where
  "DTsize = map_of [(''uint8'', 1), (''uint16'', 2), (''uint32'', 4), (''uint64'', 8),
                    (''float32'', 4), (''float64'', 8)]"

definition index_map :: "(string \<rightharpoonup> nat) \<Rightarrow> string \<Rightarrow> nat" where
  "index_map m k = (case m k of None \<Rightarrow> 0 | Some v \<Rightarrow> v)"

text \<open>
  The loop \<^verbatim>\<open>for vn, dt := range dtypes\<close> over the entries of the map in the order
  of the iteration. A panic ends it and leaves the target bucket as it is then.
\<close>

fun dobucket_cols ::
  "bucket \<Rightarrow> bool list \<Rightarrow> (string \<times> string) list \<Rightarrow> bucket \<Rightarrow> bucket \<times> error option" where
  "dobucket_cols src ix [] tgt = (tgt, None)"
| "dobucket_cols src ix ((vn, dt) # rest) tgt =
     (if dt = ''uvarint''
      then (case douvarint src tgt vn ix of
              (tgt', Some e) \<Rightarrow> (tgt', Some e)
            | (tgt', None) \<Rightarrow> dobucket_cols src ix rest tgt')
      else if dt = ''varint''
      then (tgt, Some VarintNotImplemented)
      else (case dofixedwidth src tgt vn (index_map DTsize dt) ix of
              (tgt', Some e) \<Rightarrow> (tgt', Some e)
            | (tgt', None) \<Rightarrow> dobucket_cols src ix rest tgt'))"

text \<open>
  \<^verbatim>\<open>dobucket(bn)\<close> on the source bucket \<open>src\<close> and the target bucket \<open>tgt\<close>:
  \<^verbatim>\<open>config.ReadDtypes\<close> (a panic when \<^verbatim>\<open>dtypes.json\<close> cannot be read),
  \<^verbatim>\<open>writedtypes\<close>, \<^verbatim>\<open>getix\<close>, then the columns. The deferred receive from
  \<^verbatim>\<open>sem\<close> belongs to the scheduler below.
\<close>

definition dobucket ::
  "uint64 list \<Rightarrow> string \<Rightarrow> bucket \<Rightarrow> bucket \<Rightarrow> bucket \<times> error option" where
  "dobucket ids idvar src tgt =
     (case dtypes_json src of
        None \<Rightarrow> (tgt, Some ErrNotExist)
      | Some dtypes \<Rightarrow>
          (case getix ids idvar src of
             Inl e \<Rightarrow> (tgt\<lparr>dtypes_json := Some dtypes\<rparr>, Some e)
           | Inr ix \<Rightarrow> dobucket_cols src ix dtypes (tgt\<lparr>dtypes_json := Some dtypes\<rparr>)))"

section \<open>The identifier file: \<^verbatim>\<open>getids\<close> (select.go, lines 76-99)\<close>

text \<open>
  \<^verbatim>\<open>strconv.ParseUint(s, 10, 64)\<close> of the Go library, character by character:
  \<^verbatim>\<open>
  for _, c := range []byte(s) {
      // a byte that is no decimal digit: return 0, syntaxError
      if n >= cutoff { return maxVal, rangeError }      // n*10 overflows
      n *= 10
      n1 := n + uint64(d)
      if n1 < n || n1 > maxVal { return maxVal, rangeError }
      n = n1 }
  return n, nil
  \<close>
  with \<^verbatim>\<open>cutoff = maxUint64/10 + 1\<close> and \<^verbatim>\<open>maxVal = 1<<64 - 1\<close>; the empty string
  is a syntax error. The range error comes where the value overflows, before the
  characters after it are looked at.
\<close>

fun ParseUint_loop :: "string \<Rightarrow> nat \<Rightarrow> error + nat" where
  "ParseUint_loop [] n = Inr n"
| "ParseUint_loop (c # s) n =
     (if 48 \<le> (of_char c :: nat) \<and> (of_char c :: nat) \<le> 57
      then (if n \<ge> 18446744073709551615 div 10 + 1 then Inl ErrRange
            else if n * 10 + ((of_char c :: nat) - 48) > 18446744073709551615 then Inl ErrRange
            else ParseUint_loop s (n * 10 + ((of_char c :: nat) - 48)))
      else Inl ErrSyntax)"

definition ParseUint :: "string \<Rightarrow> error + nat" where
  "ParseUint s = (if s = [] then Inl ErrSyntax else ParseUint_loop s 0)"

text \<open>
  \<^verbatim>\<open>strconv.Atoi(s)\<close> of the Go library, which is \<^verbatim>\<open>ParseInt(s, 10, 0)\<close>, for the
  64-bit \<^verbatim>\<open>int\<close>: the empty string is a syntax error; a leading \<^verbatim>\<open>+\<close> or
  \<^verbatim>\<open>-\<close> is taken off and the rest goes to \<^verbatim>\<open>ParseUint\<close>, whose error is the
  result; a value of \<open>2^63\<close> or more (more than \<open>2^63\<close> after \<^verbatim>\<open>-\<close>) is a
  range error. (The short-string path of \<^verbatim>\<open>Atoi\<close> gives the same results.)
\<close>

definition Atoi :: "string \<Rightarrow> error + int" where
  "Atoi s0 =
     (if s0 = [] then Inl ErrSyntax
      else let neg = (hd s0 = CHR ''-'');
               s = (if hd s0 = CHR ''+'' \<or> hd s0 = CHR ''-'' then tl s0 else s0)
           in (case ParseUint s of
                 Inl err \<Rightarrow> Inl err
               | Inr un \<Rightarrow>
                   if \<not> neg \<and> un \<ge> 2 ^ 63 then Inl ErrRange
                   else if neg \<and> un > 2 ^ 63 then Inl ErrRange
                   else Inr (if neg then - int un else int un)))"

text \<open>
  The loop \<^verbatim>\<open>for scanner.Scan()\<close> over the lines of the file;
  \<^verbatim>\<open>uint64(id)\<close> converts the \<^verbatim>\<open>int\<close> modulo \<open>2^64\<close>.
\<close>

fun getids_loop :: "string list \<Rightarrow> uint64 list \<Rightarrow> error + uint64 list" where
  "getids_loop [] ids = Inr ids"
| "getids_loop (text # rest) ids =
     (case Atoi text of
        Inl e \<Rightarrow> Inl e
      | Inr id' \<Rightarrow> getids_loop rest (ids @ [word_of_int id']))"

text \<open>
  \<^verbatim>\<open>getids(idfile)\<close>. The file is given as what the \<^verbatim>\<open>bufio.Scanner\<close> makes of
  it: \<open>None\<close> when \<^verbatim>\<open>os.Open\<close> fails, otherwise the lines that
  \<^verbatim>\<open>scanner.Text()\<close> returns, in order, and the final \<^verbatim>\<open>scanner.Err()\<close>
  (\<^verbatim>\<open>bufio.ErrTooLong\<close> for a line beyond the scanner's buffer, for one).
  The global \<^verbatim>\<open>ids\<close> is empty before the call; \<^verbatim>\<open>sort.Sort\<close> puts it in
  ascending order.
\<close>

definition getids :: "(string list \<times> error option) option \<Rightarrow> error + uint64 list" where
  "getids idfile =
     (case idfile of
        None \<Rightarrow> Inl ErrNotExist
      | Some (lines, scan_err) \<Rightarrow>
          (case getids_loop lines [] of
             Inl e \<Rightarrow> Inl e
           | Inr ids \<Rightarrow>
               (case scan_err of
                  Some e \<Rightarrow> Inl e
                | None \<Rightarrow> Inr (sort ids))))"

section \<open>Preflight and \<^verbatim>\<open>main\<close> (select.go, lines 340-407)\<close>

text \<open>
  What \<^verbatim>\<open>os.Stat\<close> answers for a path: an error, or the identity of the file
  (device and inode, here a number). \<^verbatim>\<open>os.Stat\<close> returns a nil
  \<^verbatim>\<open>FileInfo\<close> with an error; \<^verbatim>\<open>os.IsNotExist\<close> holds of the not-exist error
  only; \<^verbatim>\<open>os.SameFile\<close> is false unless both arguments are file infos of the
  operating system, which a nil \<^verbatim>\<open>FileInfo\<close> is not.
\<close>

type_synonym fileinfo = nat
type_synonym filesystem = "string \<Rightarrow> error + fileinfo"

definition Stat :: "filesystem \<Rightarrow> string \<Rightarrow> fileinfo option \<times> error option" where
  "Stat fs name = (case fs name of Inl e \<Rightarrow> (None, Some e) | Inr fi \<Rightarrow> (Some fi, None))"

definition IsNotExist :: "error option \<Rightarrow> bool" where
  "IsNotExist err = (err = Some ErrNotExist)"

fun SameFile :: "fileinfo option \<Rightarrow> fileinfo option \<Rightarrow> bool" where
  "SameFile (Some fs1) (Some fs2) = (fs1 = fs2)"
| "SameFile fi1 fi2 = False"

text \<open>
  What the program prints, and the calls that change the file system.
  \<open>MsgUsage\<close> is \<^verbatim>\<open>usage: select idvar idfile targetdir sourcedir\<close>,
  \<open>MsgUseReplace d\<close> is \<^verbatim>\<open>Use -replace=true to overwrite existing contents of d\<close>,
  \<open>MsgSameDir\<close> is \<^verbatim>\<open>Cannot have targetdir equal to sourcedir\<close>.
  \<open>Go k\<close> is the statement \<^verbatim>\<open>go dobucket(k)\<close>.
\<close>

datatype message = MsgUsage | MsgUseReplace string | MsgSameDir

datatype event =
    Stdout message
  | Stderr message
  | Create string
  | MkdirAll string
  | WriteConfig string
  | CopyCodes string
  | SetupTargetDir string
  | Go nat

fun mutation :: "event \<Rightarrow> bool" where
  "mutation (Stdout m) = False"
| "mutation (Stderr m) = False"
| "mutation e = True"

datatype outcome = Exit nat | Panic error | Done

text \<open>
  \<^verbatim>\<open>check()\<close>: the events up to its end and the exit code, if it exits.
\<close>

definition check :: "bool \<Rightarrow> string \<Rightarrow> string \<Rightarrow> filesystem \<Rightarrow> event list \<times> nat option" where
  "check replace targetdir sourcedir fs =
     (if \<not> replace \<and> \<not> IsNotExist (snd (Stat fs targetdir))
      then ([Stdout (MsgUseReplace targetdir)], Some 1)
      else (case Stat fs targetdir of
              (ts, err) \<Rightarrow>
                if err \<noteq> None
                then (case Stat fs sourcedir of
                        (ss, err') \<Rightarrow>
                          if err' \<noteq> None
                          then (if SameFile ts ss then ([Stderr MsgSameDir], Some 1)
                                else ([], None))
                          else ([], None))
                else ([], None)))"

text \<open>
  The environment of a run: the answers of \<^verbatim>\<open>os.Stat\<close>, and the results of the
  steps of \<^verbatim>\<open>main\<close> that this development does not look into: the error, if any,
  of \<^verbatim>\<open>os.Create("select.log")\<close>, \<^verbatim>\<open>config.GetConfig\<close> (its
  \<^verbatim>\<open>NumBuckets\<close>), \<^verbatim>\<open>config.WriteConfig\<close>, \<^verbatim>\<open>copycodes\<close> and
  \<^verbatim>\<open>setupTargetDir\<close>, and the identifier file.
\<close>

record env =
  stat :: filesystem
  create_log :: "error option"
  get_config :: "error + nat"
  write_config :: "error option"
  copy_codes :: "error option"
  id_file :: "(string list \<times> error option) option"
  setup_target :: "error option"

text \<open>
  \<^verbatim>\<open>main\<close>, statement by statement, as the list of events and the way the process
  ends. The buckets themselves run in the goroutines that \<open>Go\<close> starts;
  \<open>Done\<close> stands for reaching the two final loops with every goroutine started.
\<close>

definition main :: "string \<Rightarrow> string \<Rightarrow> string \<Rightarrow> string \<Rightarrow> bool \<Rightarrow> env \<Rightarrow> event list \<times> outcome" where
  "main idvar idfile targetdir sourcedir replace e =
     (if idvar = [] \<or> idfile = [] \<or> targetdir = [] \<or> sourcedir = []
      then ([Stderr MsgUsage], Exit 1)
      else
        (case check replace targetdir sourcedir (stat e) of
           (out, Some code) \<Rightarrow> (out, Exit code)
         | (out, None) \<Rightarrow>
        (case create_log e of
           Some err \<Rightarrow> (out @ [Create ''select.log''], Panic err)
         | None \<Rightarrow>
        (case get_config e of
           Inl err \<Rightarrow> (out @ [Create ''select.log'', MkdirAll targetdir], Panic err)
         | Inr NumBuckets \<Rightarrow>
        (case write_config e of
           Some err \<Rightarrow>
             (out @ [Create ''select.log'', MkdirAll targetdir, WriteConfig targetdir],
              Panic err)
         | None \<Rightarrow>
        (case copy_codes e of
           Some err \<Rightarrow>
             (out @ [Create ''select.log'', MkdirAll targetdir, WriteConfig targetdir,
                     CopyCodes targetdir], Panic err)
         | None \<Rightarrow>
        (case getids (id_file e) of
           Inl err \<Rightarrow>
             (out @ [Create ''select.log'', MkdirAll targetdir, WriteConfig targetdir,
                     CopyCodes targetdir], Panic err)
         | Inr ids \<Rightarrow>
        (case setup_target e of
           Some err \<Rightarrow>
             (out @ [Create ''select.log'', MkdirAll targetdir, WriteConfig targetdir,
                     CopyCodes targetdir, SetupTargetDir targetdir], Panic err)
         | None \<Rightarrow>
             (out @ [Create ''select.log'', MkdirAll targetdir, WriteConfig targetdir,
                     CopyCodes targetdir, SetupTargetDir targetdir]
                  @ map Go [0..<NumBuckets], Done)))))))))"

section \<open>The scheduler: the semaphore \<^verbatim>\<open>sem\<close> (select.go, lines 390-406 and 281)\<close>

text \<open>
  \<^verbatim>\<open>main\<close> and the goroutines it starts, as a transition system that interleaves
  their channel operations. \<open>sem\<close> is the number of values in the buffered channel
  \<^verbatim>\<open>sem = make(chan bool, concurrency)\<close>: a send needs room, a receive needs a
  value. The program counter of \<^verbatim>\<open>main\<close> is
  \<^item> \<open>Loop k\<close>: at the head of \<^verbatim>\<open>for k := 0; k < conf.NumBuckets; k++\<close>;
  \<^item> \<open>Launch k\<close>: after \<^verbatim>\<open>sem <- true\<close>, before \<^verbatim>\<open>go dobucket(k)\<close>;
  \<^item> \<open>Drain k\<close>: at the head of \<^verbatim>\<open>for k := 0; k < concurrency; k++\<close>;
  \<^item> \<open>Finished\<close>: after \<^verbatim>\<open>logger.Printf("Done, exiting")\<close>;
  \<^item> \<open>Crashed\<close>: the Go runtime has ended the process after a panic.
  \<open>running\<close> holds the buckets whose goroutine has been started and has not yet run
  its deferred \<^verbatim>\<open><-sem\<close>. A job ends in one of two ways, and in both its deferred
  function takes a value out of \<^verbatim>\<open>sem\<close>: \<^verbatim>\<open>dobucket\<close> returns (the bucket
  goes to \<open>returned\<close>), or it panics and the deferred function runs while the panic
  unwinds (the bucket goes to \<open>panicked\<close>). Nothing recovers a panic, so the runtime
  ends the process after the deferred function has run; until it does, \<^verbatim>\<open>main\<close>
  and the other goroutines go on, so that \<^verbatim>\<open>main\<close> can fill the channel and log
  \<^verbatim>\<open>Done, exiting\<close> after a job has panicked.
\<close>

definition concurrency :: nat where
  "concurrency = 20"

datatype pc = Loop nat | Launch nat | Drain nat | Finished | Crashed

record sched =
  main_pc :: pc
  sem :: nat
  running :: "nat set"
  returned :: "nat set"
  panicked :: "nat set"


inductive step :: "nat \<Rightarrow> sched \<Rightarrow> sched \<Rightarrow> bool" for NumBuckets :: nat where
  acquire:
    "main_pc s = Loop k \<Longrightarrow> k < NumBuckets \<Longrightarrow> sem s < concurrency \<Longrightarrow>
     step NumBuckets s (s\<lparr>main_pc := Launch k, sem := sem s + 1\<rparr>)"
| launch:
    "main_pc s = Launch k \<Longrightarrow>
     step NumBuckets s (s\<lparr>main_pc := Loop (k + 1), running := insert k (running s)\<rparr>)"
| leave_loop:
    "main_pc s = Loop k \<Longrightarrow> \<not> k < NumBuckets \<Longrightarrow>
     step NumBuckets s (s\<lparr>main_pc := Drain 0\<rparr>)"
| drain_acquire:
    "main_pc s = Drain k \<Longrightarrow> k < concurrency \<Longrightarrow> sem s < concurrency \<Longrightarrow>
     step NumBuckets s (s\<lparr>main_pc := Drain (k + 1), sem := sem s + 1\<rparr>)"
| report_done:
    "main_pc s = Drain k \<Longrightarrow> \<not> k < concurrency \<Longrightarrow>
     step NumBuckets s (s\<lparr>main_pc := Finished\<rparr>)"
| job_return:
    "j \<in> running s \<Longrightarrow> 0 < sem s \<Longrightarrow> main_pc s \<noteq> Finished \<Longrightarrow> main_pc s \<noteq> Crashed \<Longrightarrow>
     step NumBuckets s
       (s\<lparr>sem := sem s - 1, running := running s - {j}, returned := insert j (returned s)\<rparr>)"
| job_panic:
    "j \<in> running s \<Longrightarrow> 0 < sem s \<Longrightarrow> main_pc s \<noteq> Finished \<Longrightarrow> main_pc s \<noteq> Crashed \<Longrightarrow>
     step NumBuckets s
       (s\<lparr>sem := sem s - 1, running := running s - {j}, panicked := insert j (panicked s)\<rparr>)"
| crash:
    "panicked s \<noteq> {} \<Longrightarrow> main_pc s \<noteq> Crashed \<Longrightarrow>
     step NumBuckets s (s\<lparr>main_pc := Crashed\<rparr>)"

code_pred step .


section \<open>Reference notions for the transcoders\<close>

text \<open>
  These three functions are not code of the program. They say, in the words of the
  specification, what a transcoder is to produce, and the lemmas on the transcoders
  compare the program with them: \<open>selected ix xs\<close> is the subsequence of \<open>xs\<close> at
  the positions where the mask \<open>ix\<close> is true, in order; \<open>records w n rdr\<close> are the
  first \<open>n\<close> records of \<open>w\<close> bytes of a stream; \<open>ReadUvarints n br\<close> decodes the
  first \<open>n\<close> uvarint records of a stream and returns them with the rest of it.
\<close>

fun selected :: "bool list \<Rightarrow> 'a list \<Rightarrow> 'a list" where
  "selected [] xs = []"
| "selected (ii # ix) [] = []"
| "selected (ii # ix) (x # xs) = (if ii then x # selected ix xs else selected ix xs)"

fun records :: "nat \<Rightarrow> nat \<Rightarrow> byte list \<Rightarrow> byte list list" where
  "records w 0 rdr = []"
| "records w (Suc n) rdr = take w rdr # records w n (drop w rdr)"

fun ReadUvarints :: "nat \<Rightarrow> byte list \<Rightarrow> error + (uint64 list \<times> byte list)" where
  "ReadUvarints 0 br = Inr ([], br)"
| "ReadUvarints (Suc n) br =
     (case ReadUvarint br of
        Inl e \<Rightarrow> Inl e
      | Inr (x, br') \<Rightarrow>
          (case ReadUvarints n br' of
             Inl e \<Rightarrow> Inl e
           | Inr (xs, br'') \<Rightarrow> Inr (x # xs, br'')))"

text \<open>
  The shortest uvarint encoding of a value: seven bits per byte, low bits first, the
  top bit set on every byte but the last. It is what \<^verbatim>\<open>binary.PutUvarint\<close> writes
  when the buffer is long enough.
\<close>

function uvarint :: "uint64 \<Rightarrow> byte list" where
  "uvarint x = (if x \<ge> 0x80 then (ucast x OR 0x80) # uvarint (drop_bit 7 x) else [ucast x])"
  by pat_completeness auto
termination
proof (relation "measure unat")
  show "wf (measure (unat :: uint64 \<Rightarrow> nat))" by simp
next
  fix x :: uint64
  assume "0x80 \<le> x"
  then have "128 \<le> unat x" by (simp add: word_le_nat_alt)
  then have "unat x div 2 ^ 7 < unat x" by simp
  then show "(drop_bit 7 x, x) \<in> measure unat"
    by (simp add: drop_bit_eq_div unat_div)
qed

text \<open>
  A decimal digit, and the number that a string of decimal digits denotes when it
  continues the number \<open>n\<close>; \<open>decimal s 0\<close> is the value of the literal \<open>s\<close>.
  These too are reference notions, not code of the program.
\<close>

definition is_digit :: "char \<Rightarrow> bool" where
  "is_digit c = (48 \<le> (of_char c :: nat) \<and> (of_char c :: nat) \<le> 57)"

fun decimal :: "string \<Rightarrow> nat \<Rightarrow> nat" where
  "decimal [] n = n"
| "decimal (c # s) n = decimal s (n * 10 + ((of_char c :: nat) - 48))"

section \<open>Properties of \<^verbatim>\<open>contains\<close>\<close>

declare Search_loop.simps [simp del]
declare getix_loop.simps [simp del]
declare PutUvarint_loop.simps [simp del]
declare uvarint.simps [simp del]

lemma Search_loop_stop: "\<not> i < j \<Longrightarrow> Search_loop f i j = i"
  by (subst Search_loop.simps) simp

lemma Search_loop_right:
  "i < j \<Longrightarrow> \<not> f ((i + j) div 2) \<Longrightarrow>
   Search_loop f i j = Search_loop f ((i + j) div 2 + 1) j"
  by (subst Search_loop.simps) simp

lemma Search_loop_left:
  "i < j \<Longrightarrow> f ((i + j) div 2) \<Longrightarrow>
   Search_loop f i j = Search_loop f i ((i + j) div 2)"
  by (subst Search_loop.simps) simp

lemma Search_loop_spec:
  assumes mono: "\<And>k l. k \<le> l \<Longrightarrow> l < n \<Longrightarrow> f k \<Longrightarrow> f l"
  shows "i \<le> j \<Longrightarrow> j \<le> n \<Longrightarrow> (\<forall>k<i. \<not> f k) \<Longrightarrow> (\<forall>k. j \<le> k \<and> k < n \<longrightarrow> f k) \<Longrightarrow>
     Search_loop f i j \<le> n \<and> (\<forall>k<Search_loop f i j. \<not> f k)
       \<and> (\<forall>k. Search_loop f i j \<le> k \<and> k < n \<longrightarrow> f k)"
  using mono
proof (induction f i j rule: Search_loop.induct)
  case (1 f i j)
  let ?h = "(i + j) div 2"
  show ?case
  proof (cases "i < j")
    case False
    then have "Search_loop f i j = i" by (rule Search_loop_stop)
    moreover have "i = j" using False 1(3) by simp
    ultimately show ?thesis using 1(4,5,6) by simp
  next
    case lt: True
    then have h: "i \<le> ?h" "?h < j" by auto
    show ?thesis
    proof (cases "f ?h")
      case True
      have upper: "\<forall>k. ?h \<le> k \<and> k < n \<longrightarrow> f k"
        using True 1(7) by blast
      have "Search_loop f i j = Search_loop f i ?h"
        using lt True by (rule Search_loop_left)
      moreover have "?h \<le> n" using h 1(4) by linarith
      ultimately show ?thesis
        using 1(2) [OF lt _ h(1) _ 1(5) upper 1(7)] True by simp
    next
      case False
      have lower: "\<forall>k<?h + 1. \<not> f k"
      proof (intro allI impI)
        fix k assume "k < ?h + 1"
        then have "k \<le> ?h" by simp
        moreover have "?h < n" using h 1(4) by linarith
        ultimately show "\<not> f k" using False 1(7) by blast
      qed
      have "Search_loop f i j = Search_loop f (?h + 1) j"
        using lt False by (rule Search_loop_right)
      moreover have "?h + 1 \<le> j" using h by simp
      ultimately show ?thesis
        using 1(1) [OF lt False _ 1(4) lower 1(6) 1(7)] by simp
    qed
  qed
qed

lemma contains_unfold:
  "contains a v =
     (Search_loop (\<lambda>i. v \<le> a ! i) 0 (length a) < length a
      \<and> a ! Search_loop (\<lambda>i. v \<le> a ! i) 0 (length a) = v)"
  by (simp add: contains_def Search_def Let_def not_le)

lemma contains_iff_sorted:
  assumes "sorted a"
  shows "contains a v \<longleftrightarrow> v \<in> set a"
proof -
  define k where "k = Search_loop (\<lambda>i. v \<le> a ! i) 0 (length a)"
  have mono: "v \<le> a ! l" if "m \<le> l" "l < length a" "v \<le> a ! m" for m l
  proof -
    have "a ! m \<le> a ! l" using assms that(1,2) by (rule sorted_nth_mono)
    with that(3) show ?thesis by (rule order_trans)
  qed
  have "Search_loop (\<lambda>i. v \<le> a ! i) 0 (length a) \<le> length a
        \<and> (\<forall>i<Search_loop (\<lambda>i. v \<le> a ! i) 0 (length a). \<not> v \<le> a ! i)
        \<and> (\<forall>i. Search_loop (\<lambda>i. v \<le> a ! i) 0 (length a) \<le> i \<and> i < length a \<longrightarrow> v \<le> a ! i)"
    by (rule Search_loop_spec [where n = "length a" and f = "\<lambda>i. v \<le> a ! i"])
       (use mono in auto)
  then have below: "\<And>i. i < k \<Longrightarrow> \<not> v \<le> a ! i"
    and above: "\<And>i. k \<le> i \<Longrightarrow> i < length a \<Longrightarrow> v \<le> a ! i"
    unfolding k_def by blast+
  have c: "contains a v \<longleftrightarrow> k < length a \<and> a ! k = v"
    unfolding k_def by (rule contains_unfold)
  show ?thesis
  proof
    assume "contains a v"
    with c show "v \<in> set a" using nth_mem by blast
  next
    assume "v \<in> set a"
    then obtain i where i: "i < length a" "a ! i = v" by (auto simp: in_set_conv_nth)
    have "\<not> i < k" using below i(2) by fastforce
    then have ki: "k \<le> i" by simp
    then have klen: "k < length a" using i(1) by simp
    have "v \<le> a ! k" using above klen by simp
    moreover have "a ! k \<le> a ! i" using assms ki i(1) by (rule sorted_nth_mono)
    ultimately have "a ! k = v" using i(2) by simp
    with klen c show "contains a v" by simp
  qed
qed

text \<open>
  Claim C3. For every ascending-sorted array \<open>a\<close> of unsigned 64-bit integers
  (duplicates permitted, possibly empty) and every value \<open>v\<close>, \<^verbatim>\<open>contains(a, v)\<close>
  returns true if and only if some element of \<open>a\<close> equals \<open>v\<close>; it returns false
  whenever \<open>v\<close> exceeds all elements, and always returns false on the empty array.
\<close>

theorem contains_sorted_membership:
  "sorted a \<Longrightarrow>
     (contains a v \<longleftrightarrow> v \<in> set a)
     \<and> ((\<forall>x\<in>set a. x < v) \<longrightarrow> \<not> contains a v)
     \<and> \<not> contains [] v"
proof -
  assume s: "sorted a"
  have 1: "contains a v \<longleftrightarrow> v \<in> set a"
    using s by (rule contains_iff_sorted)
  have 2: "(\<forall>x\<in>set a. x < v) \<longrightarrow> \<not> contains a v"
    using 1 by auto
  have 3: "\<not> contains [] v"
    using contains_iff_sorted [of "[]" v] by simp
  from 1 2 3 show ?thesis by blast
qed

theorem contains_sorted_membership_witness:
  "sorted [3, 7, 7, 9 :: uint64]
     \<and> contains [3, 7, 7, 9] 7 \<and> \<not> contains [3, 7, 7, 9] 8 \<and> \<not> contains [3, 7, 7, 9] 10"
proof -
  have s: "sorted [3, 7, 7, 9 :: uint64]" by simp
  show ?thesis
    using s contains_sorted_membership [OF s, of 7] contains_sorted_membership [OF s, of 8]
      contains_sorted_membership [OF s, of 10]
    by simp
qed

section \<open>Properties of \<^verbatim>\<open>getix\<close>\<close>

lemma length_PutUint64: "length (PutUint64 v) = 8" by (simp add: PutUint64_def)

lemma byte_at: 
  "n < 64 \<Longrightarrow> bit (push_bit k (ucast (ucast (drop_bit k v :: uint64) :: byte) :: uint64)) n
     \<longleftrightarrow> k \<le> n \<and> n < k + 8 \<and> bit v n"
  by (auto simp add: bit_simps)

lemma Uint64_PutUint64: "Uint64 (PutUint64 v) = v"
proof (rule bit_word_eqI)
  fix n assume n: "n < LENGTH(64)"
  then have n64: "n < 64" by simp
  have b0: "bit (ucast (ucast v :: byte) :: uint64) n \<longleftrightarrow> n < 8 \<and> bit v n"
    using n64 by (auto simp add: bit_simps)
  have "n < 8 \<or> (8 \<le> n \<and> n < 16) \<or> (16 \<le> n \<and> n < 24) \<or> (24 \<le> n \<and> n < 32)
     \<or> (32 \<le> n \<and> n < 40) \<or> (40 \<le> n \<and> n < 48) \<or> (48 \<le> n \<and> n < 56) \<or> (56 \<le> n \<and> n < 64)"
    using n64 by arith
  then show "bit (Uint64 (PutUint64 v)) n = bit v n"
    unfolding Uint64_def PutUint64_def
    by (simp add: bit_or_iff byte_at [OF n64] b0) arith
qed

lemma Read_uint64_Nil: "Read_uint64 [] = Inl EOF"
  by (simp add: Read_uint64_def ReadFull_def)

lemma Read_uint64_PutUint64: "Read_uint64 (PutUint64 v @ rest) = Inr (v, rest)"
  by (simp add: Read_uint64_def ReadFull_def length_PutUint64 Uint64_PutUint64)

lemma getix_loop_Nil: "getix_loop ids [] ix m n = Inr (ix, m, n)"
  by (subst getix_loop.simps) (simp add: Read_uint64_Nil)

lemma getix_loop_PutUint64:
  "getix_loop ids (PutUint64 v @ rest) ix m n =
     getix_loop ids rest (ix @ [contains ids v]) (if contains ids v then m + 1 else m) (n + 1)"
  by (subst getix_loop.simps) (simp add: Read_uint64_PutUint64)

lemma getix_loop_encoded:
  "getix_loop ids (concat (map PutUint64 vs)) ix m n =
     Inr (ix @ map (contains ids) vs, m + length (filter (contains ids) vs), n + length vs)"
  by (induction vs arbitrary: ix m n) (simp_all add: getix_loop_Nil getix_loop_PutUint64)

lemma getix_loop_short:
  "0 < length rdr \<Longrightarrow> length rdr < 8 \<Longrightarrow> getix_loop ids rdr ix m n = Inl ErrUnexpectedEOF"
  by (subst getix_loop.simps) (simp add: Read_uint64_def ReadFull_def)

text \<open>
  Claim C2. For every key-column stream that is the concatenation of the 8-byte
  little-endian encodings of unsigned integers \<open>vs\<close>, \<^verbatim>\<open>getix\<close> returns, without
  error, a mask with one entry per integer, the i-th entry being
  \<^verbatim>\<open>contains(ids, v_i)\<close> for the i-th decoded value; reaching the end of the stream
  ends the loop. The type metadata of the bucket plays no part: \<^verbatim>\<open>getix\<close> never
  reads it.
\<close>

theorem getix_mask:
  "columns src idvar = Some (concat (map PutUint64 vs)) \<Longrightarrow>
     getix ids idvar src = Inr (map (contains ids) vs)
     \<and> map Uint64 (map PutUint64 vs) = vs"
  by (simp add: getix_def getix_loop_encoded Uint64_PutUint64 map_idI)

lemma contains_ex: "map (contains [3, 7, 9]) [1, 3, 5, 7, 7, 10] = [False, True, False, True, True, False]"
  by code_simp

theorem getix_mask_example:
  "getix [3, 7, 9] ''id''
     \<lparr>dtypes_json = Some [(''id'', ''uvarint'')],
      columns = [''id'' \<mapsto> concat (map PutUint64 [1, 3, 5, 7, 7, 10])]\<rparr>
   = Inr [False, True, False, True, True, False]"
  using getix_mask [of "\<lparr>dtypes_json = Some [(''id'', ''uvarint'')],
      columns = [''id'' \<mapsto> concat (map PutUint64 [1, 3, 5, 7, 7, 10])]\<rparr>" "''id''" "[1, 3, 5, 7, 7, 10]" "[3, 7, 9]"]
  unfolding contains_ex by simp

section \<open>Columns with an unknown type tag\<close>

lemma ReadFull_zero: "ReadFull rdr 0 = Inr ([], rdr)"
  by (simp add: ReadFull_def)

lemma dofixedwidth_loop_zero: "dofixedwidth_loop 0 ix rdr wtr = (wtr, None)"
  by (induction ix arbitrary: rdr wtr) (simp_all add: ReadFull_zero)

lemma index_map_DTsize_unknown:
  "dt \<notin> {''uint8'', ''uint16'', ''uint32'', ''uint64'', ''float32'', ''float64''} \<Longrightarrow>
   index_map DTsize dt = 0"
  by (simp add: index_map_def DTsize_def)

text \<open>
  Claim C9. For every column whose declared type tag is neither \<^verbatim>\<open>uvarint\<close> nor
  \<^verbatim>\<open>varint\<close> nor one of the tags of \<^verbatim>\<open>config.DTsize\<close>, the size lookup yields
  width 0, and \<^verbatim>\<open>dobucket\<close> runs the fixed-width transcoder on it to completion
  without any error: every read takes zero bytes, nothing is written, and the output
  column is created empty instead of an unsupported-type error being raised.
\<close>

theorem unknown_tag_width_zero:
  "dt \<notin> {''uvarint'', ''varint'', ''uint8'', ''uint16'', ''uint32'', ''uint64'',
           ''float32'', ''float64''} \<Longrightarrow>
   columns src vn = Some rdr \<Longrightarrow>
     index_map DTsize dt = 0
     \<and> ReadFull rdr (index_map DTsize dt) = Inr ([], rdr)
     \<and> dofixedwidth_loop (index_map DTsize dt) ix rdr [] = ([], None)
     \<and> dobucket_cols src ix [(vn, dt)] tgt
         = (tgt\<lparr>columns := (columns tgt)(vn \<mapsto> [])\<rparr>, None)"
proof -
  assume dt: "dt \<notin> {''uvarint'', ''varint'', ''uint8'', ''uint16'', ''uint32'', ''uint64'',
           ''float32'', ''float64''}"
    and col: "columns src vn = Some rdr"
  from dt have w: "index_map DTsize dt = 0" by (simp add: index_map_DTsize_unknown)
  from dt have tag: "dt \<noteq> ''uvarint''" "dt \<noteq> ''varint''" by auto
  show ?thesis
    using w tag col
    by (simp add: ReadFull_zero dofixedwidth_loop_zero dofixedwidth_def)
qed

theorem unknown_tag_width_zero_witness:
  "index_map DTsize ''int32'' = 0
   \<and> ReadFull [1, 2, 3, 4, 5, 6, 7, 8] (index_map DTsize ''int32'') = Inr ([], [1, 2, 3, 4, 5, 6, 7, 8])
   \<and> dofixedwidth_loop (index_map DTsize ''int32'') [True, False] [1, 2, 3, 4, 5, 6, 7, 8] [] = ([], None)
   \<and> dobucket_cols \<lparr>dtypes_json = Some [(''x'', ''int32'')], columns = [''x'' \<mapsto> [1, 2, 3, 4, 5, 6, 7, 8]]\<rparr>
        [True, False] [(''x'', ''int32'')] \<lparr>dtypes_json = Some [(''x'', ''int32'')], columns = Map.empty\<rparr>
      = (\<lparr>dtypes_json = Some [(''x'', ''int32'')], columns = [''x'' \<mapsto> []]\<rparr>, None)"
proof -
  have h1: "''int32'' \<notin> {''uvarint'', ''varint'', ''uint8'', ''uint16'', ''uint32'', ''uint64'',
           ''float32'', ''float64''}" by simp
  have h2: "columns \<lparr>dtypes_json = Some [(''x'', ''int32'')],
              columns = [''x'' \<mapsto> [1, 2, 3, 4, 5, 6, 7, 8 :: byte]]\<rparr> ''x''
            = Some [1, 2, 3, 4, 5, 6, 7, 8]" by simp
  have eq: "\<lparr>dtypes_json = Some [(''x'', ''int32'')], columns = Map.empty\<rparr>
              \<lparr>columns := (columns \<lparr>dtypes_json = Some [(''x'', ''int32'')],
                                     columns = (Map.empty :: string \<rightharpoonup> byte list)\<rparr>)
                             (''x'' \<mapsto> [])\<rparr>
            = \<lparr>dtypes_json = Some [(''x'', ''int32'')], columns = [''x'' \<mapsto> []]\<rparr>" by simp
  show ?thesis
    using unknown_tag_width_zero [OF h1 h2, of "[True, False]"
        "\<lparr>dtypes_json = Some [(''x'', ''int32'')], columns = Map.empty\<rparr>"]
    unfolding eq .
qed

section \<open>Buckets with a \<^verbatim>\<open>varint\<close> column\<close>

lemma dobucket_cols_varint:
  "dobucket_cols src ix (pre @ (vn, ''varint'') # post) tgt =
     (case dobucket_cols src ix pre tgt of
        (t, None) \<Rightarrow> (t, Some VarintNotImplemented)
      | (t, Some e) \<Rightarrow> (t, Some e))"
proof (induction pre arbitrary: tgt)
  case Nil
  show ?case by simp
next
  case (Cons p pre)
  obtain n d where p: "p = (n, d)" by (cases p)
  show ?case
    unfolding p by (simp add: Cons.IH split: prod.splits option.splits)
qed

lemma dofixedwidth_columns_other:
  "vn \<noteq> n \<Longrightarrow> columns (fst (dofixedwidth src tgt n w ix)) vn = columns tgt vn"
  by (simp add: dofixedwidth_def split: option.splits prod.splits)

lemma douvarint_columns_other:
  "vn \<noteq> n \<Longrightarrow> columns (fst (douvarint src tgt n ix)) vn = columns tgt vn"
  by (simp add: douvarint_def split: option.splits prod.splits)

lemma dofixedwidth_dtypes_json:
  "dtypes_json (fst (dofixedwidth src tgt n w ix)) = dtypes_json tgt"
  by (simp add: dofixedwidth_def split: option.splits prod.splits)

lemma douvarint_dtypes_json:
  "dtypes_json (fst (douvarint src tgt n ix)) = dtypes_json tgt"
  by (simp add: douvarint_def split: option.splits prod.splits)

lemma dobucket_cols_columns_other:
  "vn \<notin> fst ` set dts \<Longrightarrow> columns (fst (dobucket_cols src ix dts tgt)) vn = columns tgt vn"
proof (induction dts arbitrary: tgt)
  case Nil
  show ?case by simp
next
  case (Cons p dts)
  obtain n d where p: "p = (n, d)" by (cases p)
  from Cons.prems p have ne: "vn \<noteq> n" and rest: "vn \<notin> fst ` set dts" by auto
  note IH = Cons.IH [OF rest]
  show ?case
  proof (cases "d = ''uvarint''")
    case True
    obtain t e where r: "douvarint src tgt n ix = (t, e)" by (cases "douvarint src tgt n ix")
    have "columns t vn = columns tgt vn"
      using douvarint_columns_other [OF ne, of src tgt ix] r by simp
    then show ?thesis using True r IH [of t] unfolding p by (cases e) simp_all
  next
    case nu: False
    show ?thesis
    proof (cases "d = ''varint''")
      case True
      then show ?thesis unfolding p by simp
    next
      case False
      obtain t e where r: "dofixedwidth src tgt n (index_map DTsize d) ix = (t, e)"
        by (cases "dofixedwidth src tgt n (index_map DTsize d) ix")
      have "columns t vn = columns tgt vn"
        using dofixedwidth_columns_other [OF ne, of src tgt "index_map DTsize d" ix] r by simp
      then show ?thesis using nu False r IH [of t] unfolding p by (cases e) simp_all
    qed
  qed
qed

lemma dobucket_cols_dtypes_json:
  "dtypes_json (fst (dobucket_cols src ix dts tgt)) = dtypes_json tgt"
proof (induction dts arbitrary: tgt)
  case Nil
  show ?case by simp
next
  case (Cons p dts)
  obtain n d where p: "p = (n, d)" by (cases p)
  show ?case
  proof (cases "d = ''uvarint''")
    case True
    obtain t e where r: "douvarint src tgt n ix = (t, e)" by (cases "douvarint src tgt n ix")
    have "dtypes_json t = dtypes_json tgt"
      using douvarint_dtypes_json [of src tgt n ix] r by simp
    then show ?thesis using True r Cons.IH [of t] unfolding p by (cases e) simp_all
  next
    case nu: False
    show ?thesis
    proof (cases "d = ''varint''")
      case True
      then show ?thesis unfolding p by simp
    next
      case False
      obtain t e where r: "dofixedwidth src tgt n (index_map DTsize d) ix = (t, e)"
        by (cases "dofixedwidth src tgt n (index_map DTsize d) ix")
      have "dtypes_json t = dtypes_json tgt"
        using dofixedwidth_dtypes_json [of src tgt n "index_map DTsize d" ix] r by simp
      then show ?thesis using nu False r Cons.IH [of t] unfolding p by (cases e) simp_all
    qed
  qed
qed

lemma getix_loop_one: "getix_loop [1] [1, 0, 0, 0, 0, 0, 0, 0] [] 0 0 = Inr ([True], 1, 1)"
  by code_simp

text \<open>
  The claim C6 as the specification states it (a bucket with a \<^verbatim>\<open>varint\<close> column
  always ends in the unsupported-type error and leaves no partial output) fails on two
  buckets. In the first the key column is visited before the \<^verbatim>\<open>varint\<close> column:
  the run ends in the unsupported-type error, with \<^verbatim>\<open>dtypes.json\<close> and the key
  column already written. In the second an empty \<^verbatim>\<open>uint8\<close> column is visited
  first: the run ends in its read error, not in the unsupported-type error.
\<close>

theorem dobucket_varint_counterexample:
  "dobucket [1] ''id''
       \<lparr>dtypes_json = Some [(''id'', ''uint64''), (''b'', ''varint'')],
        columns = [''id'' \<mapsto> [1, 0, 0, 0, 0, 0, 0, 0], ''b'' \<mapsto> [2]]\<rparr>
       \<lparr>dtypes_json = None, columns = Map.empty\<rparr>
    = (\<lparr>dtypes_json = Some [(''id'', ''uint64''), (''b'', ''varint'')],
        columns = [''id'' \<mapsto> [1, 0, 0, 0, 0, 0, 0, 0]]\<rparr>, Some VarintNotImplemented)
   \<and> dobucket [1] ''id''
       \<lparr>dtypes_json = Some [(''a'', ''uint8''), (''b'', ''varint'')],
        columns = [''id'' \<mapsto> [1, 0, 0, 0, 0, 0, 0, 0], ''a'' \<mapsto> [], ''b'' \<mapsto> [2]]\<rparr>
       \<lparr>dtypes_json = None, columns = Map.empty\<rparr>
    = (\<lparr>dtypes_json = Some [(''a'', ''uint8''), (''b'', ''varint'')],
        columns = [''a'' \<mapsto> []]\<rparr>, Some EOF)"
  by (simp add: dobucket_def getix_def getix_loop_one index_map_def DTsize_def
        dofixedwidth_def ReadFull_def)

text \<open>
  Claim C6, amended. For every bucket with a column \<open>vn\<close> whose declared type tag is
  \<^verbatim>\<open>varint\<close>, \<^verbatim>\<open>dobucket\<close> never completes without a fatal error and never
  writes an output stream for \<open>vn\<close> (no coercion to another encoding). The type
  metadata has been written by then. When the key column can be read, the result is
  that of the columns visited before \<open>vn\<close>: the error of the first of them that
  fails, and the unsupported-type error when none fails; their output stays in the
  target bucket.
\<close>

theorem dobucket_varint_fatal:
  assumes dt: "dtypes_json src = Some (pre @ (vn, ''varint'') # post)"
    and first: "vn \<notin> fst ` set pre"
  shows "snd (dobucket ids idvar src tgt) \<noteq> None
     \<and> columns (fst (dobucket ids idvar src tgt)) vn = columns tgt vn
     \<and> dtypes_json (fst (dobucket ids idvar src tgt)) = dtypes_json src
     \<and> (\<forall>ix. getix ids idvar src = Inr ix \<longrightarrow>
           dobucket ids idvar src tgt =
             (case dobucket_cols src ix pre (tgt\<lparr>dtypes_json := dtypes_json src\<rparr>) of
                (t, None) \<Rightarrow> (t, Some VarintNotImplemented)
              | (t, Some e) \<Rightarrow> (t, Some e)))"
proof (cases "getix ids idvar src")
  case (Inl e)
  then show ?thesis using dt by (simp add: dobucket_def)
next
  case (Inr ix)
  let ?t1 = "tgt\<lparr>dtypes_json := dtypes_json src\<rparr>"
  obtain t e where r: "dobucket_cols src ix pre ?t1 = (t, e)"
    by (cases "dobucket_cols src ix pre ?t1")
  have d: "dobucket ids idvar src tgt =
      (case dobucket_cols src ix pre ?t1 of
         (t, None) \<Rightarrow> (t, Some VarintNotImplemented)
       | (t, Some e) \<Rightarrow> (t, Some e))"
    using dt Inr by (simp add: dobucket_def dobucket_cols_varint)
  have c: "columns t vn = columns tgt vn"
    using dobucket_cols_columns_other [OF first, of src ix ?t1] r by simp
  have j: "dtypes_json t = dtypes_json src"
    using dobucket_cols_dtypes_json [of src ix pre ?t1] r by simp
  show ?thesis using d r c j Inr by (cases e) simp_all
qed

theorem dobucket_varint_fatal_witness:
  "snd (dobucket [1] ''id''
       \<lparr>dtypes_json = Some ([(''id'', ''uint64'')] @ (''b'', ''varint'') # [(''c'', ''uint8'')]),
        columns = [''id'' \<mapsto> [1, 0, 0, 0, 0, 0, 0, 0], ''b'' \<mapsto> [2], ''c'' \<mapsto> [3]]\<rparr>
       \<lparr>dtypes_json = None, columns = Map.empty\<rparr>) = Some VarintNotImplemented
   \<and> columns (fst (dobucket [1] ''id''
       \<lparr>dtypes_json = Some ([(''id'', ''uint64'')] @ (''b'', ''varint'') # [(''c'', ''uint8'')]),
        columns = [''id'' \<mapsto> [1, 0, 0, 0, 0, 0, 0, 0], ''b'' \<mapsto> [2], ''c'' \<mapsto> [3]]\<rparr>
       \<lparr>dtypes_json = None, columns = Map.empty\<rparr>)) ''b'' = None"
proof -
  let ?src = "\<lparr>dtypes_json = Some ([(''id'', ''uint64'')] @ (''b'', ''varint'') # [(''c'', ''uint8'')]),
        columns = [''id'' \<mapsto> [1, 0, 0, 0, 0, 0, 0, 0 :: byte], ''b'' \<mapsto> [2], ''c'' \<mapsto> [3]]\<rparr>"
  let ?tgt = "\<lparr>dtypes_json = None, columns = (Map.empty :: string \<rightharpoonup> byte list)\<rparr>"
  have h1: "dtypes_json ?src = Some ([(''id'', ''uint64'')] @ (''b'', ''varint'') # [(''c'', ''uint8'')])"
    by simp
  have h2: "''b'' \<notin> fst ` set [(''id'', ''uint64'')]" by simp
  have g: "getix [1] ''id'' ?src = Inr [True]"
    by (simp add: getix_def getix_loop_one)
  have c: "dobucket_cols ?src [True] [(''id'', ''uint64'')] (?tgt\<lparr>dtypes_json := dtypes_json ?src\<rparr>)
     = (\<lparr>dtypes_json = dtypes_json ?src, columns = [''id'' \<mapsto> [1, 0, 0, 0, 0, 0, 0, 0]]\<rparr>, None)"
    by (simp add: index_map_def DTsize_def dofixedwidth_def ReadFull_def)
  note t = dobucket_varint_fatal [OF h1 h2, of "[1]" "''id''" ?tgt]
  from t have "columns (fst (dobucket [1] ''id'' ?src ?tgt)) ''b'' = columns ?tgt ''b''" by blast
  moreover from t g have "dobucket [1] ''id'' ?src ?tgt =
      (case dobucket_cols ?src [True] [(''id'', ''uint64'')] (?tgt\<lparr>dtypes_json := dtypes_json ?src\<rparr>) of
                (t, None) \<Rightarrow> (t, Some VarintNotImplemented)
              | (t, Some e) \<Rightarrow> (t, Some e))" by blast
  ultimately show ?thesis unfolding c by simp
qed

text \<open>When the key column cannot be read, its error is the error of the run.\<close>

lemma dobucket_key_column_error:
  "dtypes_json src = Some dts \<Longrightarrow> getix ids key src = Inl e \<Longrightarrow>
   dobucket ids key src tgt = (tgt\<lparr>dtypes_json := Some dts\<rparr>, Some e)"
  by (simp add: dobucket_def)

section \<open>The fixed-width transcoder against its reference\<close>

text \<open>
  With at least as many records in the input as the mask has entries, the fixed-width
  transcoder writes the records at the true positions of the mask, in order, and
  ends without error; with fewer it ends in a fatal read error. Its result depends on
  the first \<open>w * length ix\<close> bytes of the input only.
\<close>

lemma length_selected:
  "length ix \<le> length xs \<Longrightarrow> length (selected ix xs) = length (filter (\<lambda>ii. ii) ix)"
  by (induction ix xs rule: selected.induct) auto

lemma selected_zip: "selected ix xs = map snd (filter fst (zip ix xs))"
  by (induction ix xs rule: selected.induct) auto

lemma ReadFull_enough:
  "w \<le> length rdr \<Longrightarrow> ReadFull rdr w = Inr (take w rdr, drop w rdr)"
  by (simp add: ReadFull_def)

lemma ReadFull_short:
  "length rdr < w \<Longrightarrow> \<exists>e. ReadFull rdr w = Inl e"
  by (simp add: ReadFull_def)

lemma dofixedwidth_loop_selected:
  "w * length ix \<le> length rdr \<Longrightarrow>
   dofixedwidth_loop w ix rdr wtr
     = (wtr @ concat (selected ix (records w (length ix) rdr)), None)"
proof (induction ix arbitrary: rdr wtr)
  case Nil
  show ?case by simp
next
  case (Cons ii ix)
  from Cons.prems have w: "w \<le> length rdr" and rest: "w * length ix \<le> length (drop w rdr)"
    by (simp_all add: algebra_simps)
  show ?case
    using Cons.IH [OF rest] by (simp add: ReadFull_enough [OF w])
qed

lemma dofixedwidth_loop_short:
  "length rdr < w * length ix \<Longrightarrow> \<exists>out e. dofixedwidth_loop w ix rdr wtr = (out, Some e)"
proof (induction ix arbitrary: rdr wtr)
  case Nil
  then show ?case by simp
next
  case (Cons ii ix)
  show ?case
  proof (cases "w \<le> length rdr")
    case True
    with Cons.prems have "length (drop w rdr) < w * length ix" by (simp add: algebra_simps)
    from Cons.IH [OF this] show ?thesis by (simp add: ReadFull_enough [OF True])
  next
    case False
    then obtain e where "ReadFull rdr w = Inl e" using ReadFull_short [of rdr w] by auto
    then show ?thesis by simp
  qed
qed

lemma dofixedwidth_loop_prefix:
  "w * length ix \<le> length p \<Longrightarrow>
   dofixedwidth_loop w ix (p @ t1) wtr = dofixedwidth_loop w ix (p @ t2) wtr"
proof (induction ix arbitrary: p wtr)
  case Nil
  show ?case by simp
next
  case (Cons ii ix)
  from Cons.prems have w: "w \<le> length p" and rest: "w * length ix \<le> length (drop w p)"
    by (simp_all add: algebra_simps)
  have r: "ReadFull (p @ t) w = Inr (take w p, drop w p @ t)" for t
    using w by (simp add: ReadFull_def)
  show ?case using Cons.IH [OF rest] by (simp add: r)
qed

text \<open>The example of the specification: a \<^verbatim>\<open>uint32\<close> column 10, 20, .., 60.\<close>

lemma dofixedwidth_loop_example:
  "dofixedwidth_loop 4 [False, True, False, True, True, False]
     (concat [[10, 0, 0, 0], [20, 0, 0, 0], [30, 0, 0, 0], [40, 0, 0, 0], [50, 0, 0, 0],
              [60, 0, 0, 0]]) []
   = (concat [[20, 0, 0, 0], [40, 0, 0, 0], [50, 0, 0, 0]], None)"
  by (simp add: ReadFull_def)

section \<open>The uvarint encoding\<close>

lemma uvarint_small: "\<not> 0x80 \<le> x \<Longrightarrow> uvarint x = [ucast x]"
  by (subst uvarint.simps) simp

lemma uvarint_large: "0x80 \<le> x \<Longrightarrow> uvarint x = (ucast x OR 0x80) # uvarint (drop_bit 7 x)"
  by (subst uvarint.simps) simp

lemma uvarint_nonempty: "0 < length (uvarint x)"
  by (cases "0x80 \<le> x") (simp_all add: uvarint_small uvarint_large)

lemma unat_drop_bit_7: "unat (drop_bit 7 (x :: uint64)) = unat x div 128"
  by (simp add: drop_bit_eq_div unat_div)

lemma length_uvarint_le:
  "unat x < 2 ^ (7 * Suc n) \<Longrightarrow> length (uvarint x) \<le> Suc n"
proof (induction n arbitrary: x)
  case 0
  then have "\<not> 0x80 \<le> x" by (simp add: word_le_nat_alt)
  then show ?case by (simp add: uvarint_small)
next
  case (Suc n)
  show ?case
  proof (cases "0x80 \<le> x")
    case False
    then show ?thesis by (simp add: uvarint_small)
  next
    case True
    have "unat x < 128 * 2 ^ (7 * Suc n)" using Suc.prems by (simp add: power_add)
    then have "unat x div 128 < 2 ^ (7 * Suc n)" by (simp add: less_mult_imp_div_less mult.commute)
    then have "unat (drop_bit 7 x) < 2 ^ (7 * Suc n)" by (simp add: unat_drop_bit_7)
    from Suc.IH [OF this] show ?thesis by (simp add: uvarint_large [OF True])
  qed
qed

lemma length_uvarint_gt:
  "2 ^ (7 * n) \<le> unat x \<Longrightarrow> n < length (uvarint x)"
proof (induction n arbitrary: x)
  case 0
  show ?case by (rule uvarint_nonempty)
next
  case (Suc n)
  have "(128::nat) \<le> 2 ^ (7 * Suc n)" 
  proof -
    have "(2::nat) ^ 7 \<le> 2 ^ (7 * Suc n)" by (rule power_increasing) simp_all
    then show ?thesis by simp
  qed
  with Suc.prems have "128 \<le> unat x" by simp
  then have big: "0x80 \<le> x" by (simp add: word_le_nat_alt)
  have "128 * 2 ^ (7 * n) \<le> unat x" using Suc.prems by (simp add: power_add)
  then have "2 ^ (7 * n) \<le> unat x div 128" by (simp add: less_eq_div_iff_mult_less_eq mult.commute)
  then have "2 ^ (7 * n) \<le> unat (drop_bit 7 x)" by (simp add: unat_drop_bit_7)
  from Suc.IH [OF this] show ?case by (simp add: uvarint_large [OF big])
qed

lemma PutUvarint_loop_fits:
  "i + length (uvarint x) \<le> length buf \<Longrightarrow>
   PutUvarint_loop buf x i
     = Inr (take i buf @ uvarint x @ drop (i + length (uvarint x)) buf, i + length (uvarint x))"
proof (induction buf x i rule: PutUvarint_loop.induct)
  case (1 buf x i)
  show ?case
  proof (cases "0x80 \<le> x")
    case False
    then have u: "uvarint x = [ucast x]" by (rule uvarint_small)
    with 1(2) have i: "i < length buf" by simp
    have "PutUvarint_loop buf x i = Inr (buf[i := ucast x], i + 1)"
      using False i by (subst PutUvarint_loop.simps) simp
    moreover have "buf[i := ucast x] = take i buf @ [ucast x] @ drop (i + 1) buf"
      using i by (simp add: upd_conv_take_nth_drop)
    ultimately show ?thesis by (simp add: u)
  next
    case True
    let ?b = "ucast x OR 0x80 :: byte"
    have u: "uvarint x = ?b # uvarint (drop_bit 7 x)" using True by (rule uvarint_large)
    with 1(2) have i: "i < length buf"
      and fits: "(i + 1) + length (uvarint (drop_bit 7 x)) \<le> length (buf[i := ?b])"
      by simp_all
    have "PutUvarint_loop buf x i = PutUvarint_loop (buf[i := ?b]) (drop_bit 7 x) (i + 1)"
      using True i by (subst PutUvarint_loop.simps) simp
    also have "\<dots> = Inr (take (i + 1) (buf[i := ?b]) @ uvarint (drop_bit 7 x)
                          @ drop (i + 1 + length (uvarint (drop_bit 7 x))) (buf[i := ?b]),
                        i + 1 + length (uvarint (drop_bit 7 x)))"
      using 1(1) [OF True i fits] .
    also have "take (i + 1) (buf[i := ?b]) = take i buf @ [?b]"
      using i by (simp add: take_Suc_conv_app_nth)
    also have "drop (i + 1 + length (uvarint (drop_bit 7 x))) (buf[i := ?b])
                 = drop (i + 1 + length (uvarint (drop_bit 7 x))) buf"
      by simp
    finally show ?thesis by (simp add: u)
  qed
qed

lemma PutUvarint_loop_overflow:
  "length buf < i + length (uvarint x) \<Longrightarrow> PutUvarint_loop buf x i = Inl IndexOutOfRange"
proof (induction buf x i rule: PutUvarint_loop.induct)
  case (1 buf x i)
  show ?case
  proof (cases "0x80 \<le> x")
    case False
    then have u: "uvarint x = [ucast x]" by (rule uvarint_small)
    with 1(2) have i: "\<not> i < length buf" by simp
    show ?thesis using False i by (subst PutUvarint_loop.simps) simp
  next
    case True
    let ?b = "ucast x OR 0x80 :: byte"
    have u: "uvarint x = ?b # uvarint (drop_bit 7 x)" using True by (rule uvarint_large)
    show ?thesis
    proof (cases "i < length buf")
      case False
      then show ?thesis using True by (subst PutUvarint_loop.simps) simp
    next
      case i: True
      from 1(2) u have "length (buf[i := ?b]) < (i + 1) + length (uvarint (drop_bit 7 x))" by simp
      from 1(1) [OF True i this] show ?thesis
        using True i by (subst PutUvarint_loop.simps) simp
    qed
  qed
qed

lemma PutUvarint_8:
  assumes "length b = 8"
  shows "PutUvarint b x =
     (if unat x < 2 ^ 56
      then Inr (uvarint x @ drop (length (uvarint x)) b, length (uvarint x))
      else Inl IndexOutOfRange)"
proof (cases "unat x < 2 ^ 56")
  case True
  then have "unat x < 2 ^ (7 * Suc 7)" by simp
  then have "length (uvarint x) \<le> 8" using length_uvarint_le [of x 7] by simp
  then show ?thesis using True assms PutUvarint_loop_fits [of 0 x b]
    by (simp add: PutUvarint_def)
next
  case False
  then have "2 ^ (7 * 8) \<le> unat x" by simp
  then have "8 < length (uvarint x)" by (rule length_uvarint_gt)
  then show ?thesis using False assms PutUvarint_loop_overflow [of b 0 x]
    by (simp add: PutUvarint_def)
qed

lemma unat_ucast_byte:
  fixes x :: uint64
  assumes "unat x < 256"
  shows "unat (ucast x :: byte) = unat x"
proof -
  have "unat (ucast x :: byte) = take_bit LENGTH(8) (unat x)" by (rule unsigned_ucast_eq)
  also have "\<dots> = unat x" using assms by (simp add: take_bit_nat_eq_self)
  finally show ?thesis .
qed

lemma byte_small:
  fixes x :: uint64
  assumes "\<not> 0x80 \<le> x"
  shows "(ucast x :: byte) < 0x80" and "(ucast (ucast x :: byte) :: uint64) = x"
proof -
  from assms have x: "unat x < 128" by (simp add: word_le_nat_alt)
  then have u: "unat (ucast x :: byte) = unat x" by (simp add: unat_ucast_byte)
  show "(ucast x :: byte) < 0x80" using x u by (simp add: word_less_nat_alt)
  have "unat (ucast (ucast x :: byte) :: uint64) = take_bit LENGTH(64) (unat (ucast x :: byte))"
    by (rule unsigned_ucast_eq)
  also have "\<dots> = unat x" using x u by (simp add: take_bit_nat_eq_self)
  finally show "(ucast (ucast x :: byte) :: uint64) = x" by (simp add: word_unat_eq_iff)
qed

lemma byte_le_1:
  fixes x :: uint64
  assumes "unat x < 2"
  shows "\<not> (ucast x :: byte) > 1"
proof -
  have u: "unat (ucast x :: byte) = unat x"
    using assms by (simp add: unat_ucast_byte)
  show ?thesis using assms u by (simp add: word_less_nat_alt)
qed

lemma byte_continuation:
  fixes x :: uint64
  shows "\<not> (ucast x OR 0x80 :: byte) < 0x80"
proof -
  have "(0x80 :: byte) \<le> 0x80 OR ucast x" by (rule le_word_or2)
  then show ?thesis by (simp add: or.commute)
qed

lemma byte_payload:
  fixes x :: uint64
  shows "(ucast ((ucast x OR 0x80 :: byte) AND 0x7f) :: uint64) = take_bit 7 x"
proof (rule bit_word_eqI)
  fix n assume "n < LENGTH(64)"
  have m: "(0x7f :: byte) = mask 7" by (simp add: mask_eq_exp_minus_1)
  have "bit (2 ^ 7 :: int) n \<longleftrightarrow> n = 7" by (simp only: bit_exp_iff) simp
  then have h: "bit (128 :: int) n \<longleftrightarrow> n = 7" by simp
  show "bit (ucast ((ucast x OR 0x80 :: byte) AND 0x7f) :: uint64) n = bit (take_bit 7 x) n"
    unfolding m by (auto simp add: bit_simps h)
qed

lemma push_bit_split:
  fixes x :: uint64
  shows "push_bit s (take_bit 7 x) OR push_bit (s + 7) (drop_bit 7 x) = push_bit s x"
proof (rule bit_word_eqI)
  fix n assume n: "n < LENGTH(64)"
  show "bit (push_bit s (take_bit 7 x) OR push_bit (s + 7) (drop_bit 7 x)) n = bit (push_bit s x) n"
  proof (cases "s + 7 \<le> n")
    case True
    then have "7 + (n - (s + 7)) = n - s" by arith
    with True n show ?thesis by (auto simp add: bit_simps)
  next
    case False
    with n show ?thesis by (auto simp add: bit_simps)
  qed
qed

lemma ReadUvarint_loop_uvarint:
  "i \<le> 9 \<Longrightarrow> unat x < 2 ^ (64 - 7 * i) \<Longrightarrow>
   ReadUvarint_loop (uvarint x @ rest) i acc (7 * i) = Inr (acc OR push_bit (7 * i) x, rest)"
proof (induction x arbitrary: i acc rule: uvarint.induct)
  case (1 x)
  show ?case
  proof (cases "0x80 \<le> x")
    case False
    note small = byte_small [OF False]
    have last: "\<not> (i = 9 \<and> (ucast x :: byte) > 1)"
    proof
      assume a: "i = 9 \<and> (ucast x :: byte) > 1"
      with 1(3) have "unat x < 2" by simp
      from byte_le_1 [OF this] a show False by simp
    qed
    show ?thesis
      using 1(2) small last by (simp add: uvarint_small [OF False])
  next
    case True
    then have big: "128 \<le> unat x" by (simp add: word_le_nat_alt)
    have i8: "i \<le> 8"
    proof (rule ccontr)
      assume "\<not> i \<le> 8"
      with 1(2) have "i = 9" by simp
      with 1(3) have "unat x < 2" by simp
      with big show False by simp
    qed
    then have i': "i + 1 \<le> 9" by simp
    have e: "(64::nat) - 7 * i = 7 + (64 - 7 * (i + 1))" using i8 by simp
    have "(2::nat) ^ (64 - 7 * i) = 2 ^ (7 + (64 - 7 * (i + 1)))"
      by (rule arg_cong [OF e])
    also have "\<dots> = 2 ^ 7 * 2 ^ (64 - 7 * (i + 1))" by (rule power_add)
    finally have "(2::nat) ^ (64 - 7 * i) = 128 * 2 ^ (64 - 7 * (i + 1))" by simp
    with 1(3) have "unat x < 128 * 2 ^ (64 - 7 * (i + 1))" by (simp only:)
    then have "unat x div 128 < 2 ^ (64 - 7 * (i + 1))"
      by (simp add: less_mult_imp_div_less mult.commute)
    then have x': "unat (drop_bit 7 x) < 2 ^ (64 - 7 * (i + 1))"
      by (simp add: unat_drop_bit_7)
    have s: "7 * i + 7 = 7 * (i + 1)" by simp
    have "ReadUvarint_loop (uvarint x @ rest) i acc (7 * i)
        = ReadUvarint_loop (uvarint (drop_bit 7 x) @ rest) (i + 1)
            (acc OR push_bit (7 * i) (ucast ((ucast x OR 0x80 :: byte) AND 0x7f))) (7 * i + 7)"
      using i8 byte_continuation [of x] by (simp add: uvarint_large [OF True])
    also have "\<dots> = Inr ((acc OR push_bit (7 * i) (ucast ((ucast x OR 0x80 :: byte) AND 0x7f)))
                         OR push_bit (7 * (i + 1)) (drop_bit 7 x), rest)"
      unfolding s by (rule 1(1) [OF True i' x'])
    also have "(acc OR push_bit (7 * i) (ucast ((ucast x OR 0x80 :: byte) AND 0x7f)))
                 OR push_bit (7 * (i + 1)) (drop_bit 7 x)
               = acc OR push_bit (7 * i) x"
      using push_bit_split [of "7 * i" x] unfolding s
      by (simp only: byte_payload or.assoc)
    finally show ?thesis .
  qed
qed

lemma ReadUvarint_uvarint: "ReadUvarint (uvarint x @ rest) = Inr (x, rest)"
proof -
  have "unat x < 2 ^ (64 - 7 * 0)" using unsigned_less [of x] by simp
  from ReadUvarint_loop_uvarint [OF _ this, of rest 0] show ?thesis
    by (simp add: ReadUvarint_def)
qed

lemma ReadUvarints_uvarint:
  "ReadUvarints (length xs) (concat (map uvarint xs) @ rest) = Inr (xs, rest)"
  by (induction xs) (simp_all add: ReadUvarint_uvarint)

section \<open>The uvarint transcoder against its reference\<close>

text \<open>
  When the input holds at least as many uvarint records as the mask has entries and
  every selected value is below \<open>2^56\<close>, the uvarint transcoder writes the shortest
  encodings of the selected values, in order, and ends without error; the output
  decodes to the selected values (\<open>ReadUvarints_uvarint\<close>). A selected value of
  \<open>2^56\<close> or more ends the run in the index panic of \<^verbatim>\<open>binary.PutUvarint\<close>.
  The result does not depend on what follows the records that the mask consumes.
\<close>

lemma douvarint_loop_selected:
  assumes "length b = 8"
    and "ReadUvarints (length ix) br = Inr (xs, rest)"
    and "\<forall>x\<in>set (selected ix xs). unat x < 2 ^ 56"
  shows "fst (douvarint_loop ix br b wtr) = wtr @ concat (map uvarint (selected ix xs))
     \<and> snd (douvarint_loop ix br b wtr) = None"
  using assms
proof (induction ix arbitrary: br b wtr xs)
  case Nil
  then show ?case by simp
next
  case (Cons ii ix)
  from Cons.prems(2) obtain x br' xs' where
    r: "ReadUvarint br = Inr (x, br')" and rs: "ReadUvarints (length ix) br' = Inr (xs', rest)"
    and xs: "xs = x # xs'"
    by (auto split: sum.splits prod.splits)
  show ?case
  proof (cases ii)
    case False
    from Cons.prems(3) xs False have "\<forall>x\<in>set (selected ix xs'). unat x < 2 ^ 56" by simp
    from Cons.IH [OF Cons.prems(1) rs this] show ?thesis
      using False r xs by simp
  next
    case True
    from Cons.prems(3) xs True have x: "unat x < 2 ^ 56"
      and sel: "\<forall>x\<in>set (selected ix xs'). unat x < 2 ^ 56" by simp_all
    let ?b' = "uvarint x @ drop (length (uvarint x)) b"
    have p: "PutUvarint b x = Inr (?b', length (uvarint x))"
      using PutUvarint_8 [OF Cons.prems(1), of x] x by simp
    have "length (uvarint x) \<le> 8" using length_uvarint_le [of x 7] x by simp
    then have len: "length ?b' = 8" using Cons.prems(1) by simp
    from Cons.IH [OF len rs sel, of "wtr @ uvarint x"] show ?thesis
      using True r xs p by simp
  qed
qed

lemma douvarint_loop_large:
  assumes "length b = 8" and "ReadUvarint br = Inr (x, br')" and "2 ^ 56 \<le> unat x"
  shows "douvarint_loop (True # ix) br b wtr = (wtr, Some IndexOutOfRange)"
  using assms PutUvarint_8 [OF assms(1), of x] by simp

lemma ReadUvarint_loop_consumes:
  "ReadUvarint_loop br i acc s = Inr (x, br') \<Longrightarrow>
   \<exists>p. br = p @ br' \<and> (\<forall>t. ReadUvarint_loop (p @ t) i acc s = Inr (x, t))"
proof (induction br arbitrary: i acc s)
  case Nil
  then show ?case by (simp split: if_splits)
next
  case (Cons b br)
  from Cons.prems have i: "i < 10" by (simp split: if_splits)
  show ?case
  proof (cases "b < 0x80")
    case True
    with Cons.prems i have "\<not> (i = 9 \<and> b > 1)" and "x = acc OR push_bit s (ucast b)" and "br' = br"
      by (auto split: if_splits)
    then have "b # br = [b] @ br' \<and> (\<forall>t. ReadUvarint_loop ([b] @ t) i acc s = Inr (x, t))"
      using True i by simp
    then show ?thesis by blast
  next
    case False
    with Cons.prems i have
      "ReadUvarint_loop br (i + 1) (acc OR push_bit s (ucast (b AND 0x7f))) (s + 7) = Inr (x, br')"
      by simp
    from Cons.IH [OF this] obtain p where
      p: "br = p @ br'"
         "\<forall>t. ReadUvarint_loop (p @ t) (i + 1) (acc OR push_bit s (ucast (b AND 0x7f))) (s + 7)
               = Inr (x, t)"
      by blast
    have "b # br = (b # p) @ br' \<and> (\<forall>t. ReadUvarint_loop ((b # p) @ t) i acc s = Inr (x, t))"
      using p False i by simp
    then show ?thesis by blast
  qed
qed

lemma ReadUvarint_consumes:
  "ReadUvarint br = Inr (x, br') \<Longrightarrow>
   \<exists>p. br = p @ br' \<and> (\<forall>t. ReadUvarint (p @ t) = Inr (x, t))"
  unfolding ReadUvarint_def by (rule ReadUvarint_loop_consumes)

lemma ReadUvarints_consumes:
  "ReadUvarints n br = Inr (xs, rest) \<Longrightarrow> \<exists>p. br = p @ rest"
proof (induction n arbitrary: br xs)
  case 0
  then show ?case by simp
next
  case (Suc n)
  from Suc.prems obtain x br' xs' where
    r: "ReadUvarint br = Inr (x, br')" and rs: "ReadUvarints n br' = Inr (xs', rest)"
    by (auto split: sum.splits prod.splits)
  from ReadUvarint_consumes [OF r] obtain q where "br = q @ br'" by blast
  moreover from Suc.IH [OF rs] obtain p' where "br' = p' @ rest" by blast
  ultimately have "br = (q @ p') @ rest" by simp
  then show ?case by blast
qed

lemma douvarint_loop_trailing:
  "ReadUvarints (length ix) (p @ t1) = Inr (xs, t1) \<Longrightarrow>
   douvarint_loop ix (p @ t2) b wtr = douvarint_loop ix (p @ t1) b wtr"
proof (induction ix arbitrary: p b wtr xs)
  case Nil
  show ?case by simp
next
  case (Cons ii ix)
  from Cons.prems obtain x br' xs' where
    r: "ReadUvarint (p @ t1) = Inr (x, br')" and rs: "ReadUvarints (length ix) br' = Inr (xs', t1)"
    by (auto split: sum.splits prod.splits)
  from ReadUvarint_consumes [OF r] obtain q where
    q: "p @ t1 = q @ br'" "\<forall>t. ReadUvarint (q @ t) = Inr (x, t)" by blast
  from ReadUvarints_consumes [OF rs] obtain p' where p': "br' = p' @ t1" by blast
  from q(1) p' have pq: "p = q @ p'" by simp
  have r2: "ReadUvarint (p @ t2) = Inr (x, p' @ t2)" using q(2) pq by simp
  have r1: "ReadUvarint (p @ t1) = Inr (x, p' @ t1)" using r p' by simp
  have rs': "ReadUvarints (length ix) (p' @ t1) = Inr (xs', t1)" using rs p' by simp
  note IH = Cons.IH [OF rs']
  show ?case
    using r1 r2 IH by (simp split: sum.splits prod.splits)
qed

text \<open>The example of the specification: a uvarint column 300, 1, 4, 128, 9999, 2.\<close>

lemma douvarint_loop_example:
  "ReadUvarints 6 [0xAC, 0x02, 0x01, 0x04, 0x80, 0x01, 0x8F, 0x4E, 0x02]
     = Inr ([300, 1, 4, 128, 9999, 2], [])
   \<and> douvarint_loop [False, True, False, True, True, False]
        [0xAC, 0x02, 0x01, 0x04, 0x80, 0x01, 0x8F, 0x4E, 0x02] (replicate 8 0) []
     = ([0x01, 0x80, 0x01, 0x8F, 0x4E], None)
   \<and> ReadUvarints 3 [0x01, 0x80, 0x01, 0x8F, 0x4E] = Inr ([1, 128, 9999], [])"
  by code_simp

section \<open>The uvarint transcoder on values of nine and ten bytes\<close>

lemma douvarint_loop_2_56:
  "douvarint_loop [True] [0x80, 0x80, 0x80, 0x80, 0x80, 0x80, 0x80, 0x80, 0x01] (replicate 8 0) []
   = ([], Some IndexOutOfRange)"
  by code_simp

lemma ReadUvarint_2_56:
  "ReadUvarint ([0x80, 0x80, 0x80, 0x80, 0x80, 0x80, 0x80, 0x80, 0x01] @ rest) = Inr (2 ^ 56, rest)"
  by (simp add: ReadUvarint_def)

lemma PutUvarint_2_56: "PutUvarint (replicate 8 0) (2 ^ 56) = Inl IndexOutOfRange"
  by code_simp

text \<open>
  Claim C1 asks that the output of a column be the input records at the true positions
  of the mask, for the uvarint transcoder as decoded values. The code does not do that
  for a selected value of \<open>2^56\<close> or more: \<^verbatim>\<open>douvarint\<close> encodes into a buffer of
  8 bytes, such a value takes 9 or 10, and \<^verbatim>\<open>binary.PutUvarint\<close> panics on the
  index. Here the column holds the single record \<open>2^56\<close> and the mask selects it:
  the run ends in the index panic and the output column is empty.
\<close>

theorem douvarint_nine_byte_value_panics:
  "ReadUvarint [0x80, 0x80, 0x80, 0x80, 0x80, 0x80, 0x80, 0x80, 0x01] = Inr (2 ^ 56, [])
   \<and> douvarint
     \<lparr>dtypes_json = Some [(''v'', ''uvarint'')],
      columns = [''v'' \<mapsto> [0x80, 0x80, 0x80, 0x80, 0x80, 0x80, 0x80, 0x80, 0x01]]\<rparr>
     \<lparr>dtypes_json = Some [(''v'', ''uvarint'')], columns = Map.empty\<rparr> ''v'' [True]
   = (\<lparr>dtypes_json = Some [(''v'', ''uvarint'')], columns = [''v'' \<mapsto> []]\<rparr>,
      Some IndexOutOfRange)"
  using ReadUvarint_2_56 [of "[]"]
  by (simp add: douvarint_def douvarint_loop_2_56 del: douvarint_loop.simps)

lemma douvarint_loop_2_56_trailing:
  "douvarint_loop [True] [0x80, 0x80, 0x80, 0x80, 0x80, 0x80, 0x80, 0x80, 0x01, 0x05] (replicate 8 0) []
   = ([], Some IndexOutOfRange)"
  by code_simp

text \<open>
  Claim C10 asks that a transcoder whose input holds more records than the mask has
  entries completes without error and ignores the rest. The uvarint transcoder does
  not when a selected record is \<open>2^56\<close> or more (the 8-byte buffer of claim C1): the
  stream below holds the records \<open>2^56\<close> and \<open>5\<close>, the mask has the one entry
  true, and the run ends in the index panic.
\<close>

theorem douvarint_trailing_record_panics:
  "ReadUvarint [0x80, 0x80, 0x80, 0x80, 0x80, 0x80, 0x80, 0x80, 0x01, 0x05] = Inr (2 ^ 56, [0x05])
   \<and> ReadUvarint [0x05] = Inr (5, [])
   \<and> douvarint_loop [True] [0x80, 0x80, 0x80, 0x80, 0x80, 0x80, 0x80, 0x80, 0x01, 0x05]
        (replicate 8 0) [] = ([], Some IndexOutOfRange)"
  using ReadUvarint_2_56 [of "[0x05]"]
  by (simp add: douvarint_loop_2_56_trailing ReadUvarint_def del: douvarint_loop.simps)

section \<open>Preflight\<close>

lemma check_events:
  "check replace targetdir sourcedir fs = ([], None)
   \<or> check replace targetdir sourcedir fs = ([Stdout (MsgUseReplace targetdir)], Some 1)"
  by (cases "fs targetdir"; cases "fs sourcedir")
     (simp_all add: check_def Stat_def)

lemma check_never_reports_same_directory:
  "Stderr MsgSameDir \<notin> set (fst (check replace targetdir sourcedir fs))"
  using check_events [of replace targetdir sourcedir fs] by auto

lemma check_existing_target:
  "\<not> replace \<Longrightarrow> fs targetdir = Inr fi \<Longrightarrow>
   check replace targetdir sourcedir fs = ([Stdout (MsgUseReplace targetdir)], Some 1)"
  by (simp add: check_def Stat_def IsNotExist_def)

lemma check_replace_existing:
  "replace \<Longrightarrow> fs targetdir = Inr fi \<Longrightarrow> check replace targetdir sourcedir fs = ([], None)"
  by (simp add: check_def Stat_def)

lemma main_missing_parameter:
  "idvar = [] \<or> idfile = [] \<or> targetdir = [] \<or> sourcedir = [] \<Longrightarrow>
   main idvar idfile targetdir sourcedir replace e = ([Stderr MsgUsage], Exit 1)"
  by (simp add: main_def)

lemma main_existing_target:
  "idvar \<noteq> [] \<Longrightarrow> idfile \<noteq> [] \<Longrightarrow> targetdir \<noteq> [] \<Longrightarrow> sourcedir \<noteq> [] \<Longrightarrow>
   \<not> replace \<Longrightarrow> stat e targetdir = Inr fi \<Longrightarrow>
   main idvar idfile targetdir sourcedir replace e = ([Stdout (MsgUseReplace targetdir)], Exit 1)"
  by (simp add: main_def check_existing_target)

lemma main_exit:
  assumes "snd (main idvar idfile targetdir sourcedir replace e) = Exit code"
  shows "code = 1 \<and> (\<forall>ev\<in>set (fst (main idvar idfile targetdir sourcedir replace e)). \<not> mutation ev)"
proof (cases "idvar = [] \<or> idfile = [] \<or> targetdir = [] \<or> sourcedir = []")
  case True
  then show ?thesis using assms by (simp add: main_def)
next
  case False
  from check_events [of replace targetdir sourcedir "stat e"] show ?thesis
  proof
    assume c: "check replace targetdir sourcedir (stat e) = ([], None)"
    have "snd (main idvar idfile targetdir sourcedir replace e) \<noteq> Exit code"
      using False c
      by (simp add: main_def split: option.splits sum.splits)
    with assms show ?thesis by simp
  next
    assume c: "check replace targetdir sourcedir (stat e) = ([Stdout (MsgUseReplace targetdir)], Some 1)"
    then have "main idvar idfile targetdir sourcedir replace e = ([Stdout (MsgUseReplace targetdir)], Exit 1)"
      using False by (simp add: main_def)
    with assms show ?thesis by simp
  qed
qed

text \<open>
  Claim C7. When a required parameter (\<^verbatim>\<open>idvar\<close>, \<^verbatim>\<open>idfile\<close>,
  \<^verbatim>\<open>targetdir\<close>, \<^verbatim>\<open>sourcedir\<close>) is missing, \<^verbatim>\<open>main\<close> writes the usage
  message and exits with code 1; when all are given, the target directory exists and
  \<^verbatim>\<open>replace\<close> is false, it prints the message about \<^verbatim>\<open>-replace\<close> and exits
  with code 1. Whenever \<^verbatim>\<open>main\<close> exits, the code is not zero and no call that
  changes the file system has been made.
\<close>

theorem main_preflight_exits:
  "(idvar = [] \<or> idfile = [] \<or> targetdir = [] \<or> sourcedir = [] \<longrightarrow>
      main idvar idfile targetdir sourcedir replace e = ([Stderr MsgUsage], Exit 1))
   \<and> (idvar \<noteq> [] \<and> idfile \<noteq> [] \<and> targetdir \<noteq> [] \<and> sourcedir \<noteq> []
        \<and> \<not> replace \<and> stat e targetdir = Inr fi \<longrightarrow>
      main idvar idfile targetdir sourcedir replace e
        = ([Stdout (MsgUseReplace targetdir)], Exit 1))
   \<and> (\<forall>code. snd (main idvar idfile targetdir sourcedir replace e) = Exit code \<longrightarrow>
        code \<noteq> 0
        \<and> (\<forall>ev\<in>set (fst (main idvar idfile targetdir sourcedir replace e)). \<not> mutation ev))"
  using main_missing_parameter [of idvar idfile targetdir sourcedir replace e]
    main_existing_target [of idvar idfile targetdir sourcedir replace e fi]
    main_exit [of idvar idfile targetdir sourcedir replace e]
  by (intro conjI impI allI) auto

theorem main_preflight_exits_witness:
  "main [] ''ids.txt'' ''out'' ''in'' False
      \<lparr>stat = (\<lambda>p. if p = ''out'' then Inr 1 else if p = ''in'' then Inr 2 else Inl ErrNotExist),
       create_log = None, get_config = Inr 2, write_config = None, copy_codes = None,
       id_file = Some ([''3'', ''7'', ''9''], None), setup_target = None\<rparr>
     = ([Stderr MsgUsage], Exit 1)
   \<and> main ''id'' ''ids.txt'' ''out'' ''in'' False
      \<lparr>stat = (\<lambda>p. if p = ''out'' then Inr 1 else if p = ''in'' then Inr 2 else Inl ErrNotExist),
       create_log = None, get_config = Inr 2, write_config = None, copy_codes = None,
       id_file = Some ([''3'', ''7'', ''9''], None), setup_target = None\<rparr>
     = ([Stdout (MsgUseReplace ''out'')], Exit 1)"
  using main_preflight_exits [of "[]" "''ids.txt''" "''out''" "''in''" False
      "\<lparr>stat = (\<lambda>p. if p = ''out'' then Inr 1 else if p = ''in'' then Inr 2 else Inl ErrNotExist),
       create_log = None, get_config = Inr 2, write_config = None, copy_codes = None,
       id_file = Some ([''3'', ''7'', ''9''], None), setup_target = None\<rparr>" 1]
    main_preflight_exits [of "''id''" "''ids.txt''" "''out''" "''in''" False
      "\<lparr>stat = (\<lambda>p. if p = ''out'' then Inr 1 else if p = ''in'' then Inr 2 else Inl ErrNotExist),
       create_log = None, get_config = Inr 2, write_config = None, copy_codes = None,
       id_file = Some ([''3'', ''7'', ''9''], None), setup_target = None\<rparr>" 1]
  by simp

lemma getids_example: "getids (Some ([''3'', ''7'', ''9''], None)) = Inr [3, 7, 9]"
  by (simp add: getids_def Atoi_def ParseUint_def)

text \<open>
  Claim C5 asks that a run whose target directory is its source directory be stopped
  by the preflight check before any mutation. \<^verbatim>\<open>check\<close> compares the two
  directories only when \<^verbatim>\<open>os.Stat\<close> failed on both, and then on two nil file
  infos, so it never reports them equal (\<open>check_never_reports_same_directory\<close>).
  With \<^verbatim>\<open>-replace=true\<close> and both parameters naming the existing directory
  \<^verbatim>\<open>data\<close>, \<^verbatim>\<open>check\<close> returns without a message and \<^verbatim>\<open>main\<close> goes on to
  write into that directory.
\<close>

theorem check_same_directory_passes:
  "check True ''data'' ''data'' (\<lambda>p. if p = ''data'' then Inr 7 else Inl ErrNotExist) = ([], None)
   \<and> main ''id'' ''ids.txt'' ''data'' ''data'' True
      \<lparr>stat = (\<lambda>p. if p = ''data'' then Inr 7 else Inl ErrNotExist),
       create_log = None, get_config = Inr 1, write_config = None, copy_codes = None,
       id_file = Some ([''3'', ''7'', ''9''], None), setup_target = None\<rparr>
     = ([Create ''select.log'', MkdirAll ''data'', WriteConfig ''data'', CopyCodes ''data'',
         SetupTargetDir ''data'', Go 0], Done)"
  by (simp add: main_def check_def Stat_def getids_example)

section \<open>The identifier file\<close>

text \<open>
  What \<^verbatim>\<open>getids\<close> does with the lines that \<^verbatim>\<open>strconv.Atoi\<close> accepts and
  rejects: when every line is accepted, the result is the lines' values, converted to
  \<^verbatim>\<open>uint64\<close>, in ascending order; a line that is rejected is a fatal error; any
  result is sorted; and when \<^verbatim>\<open>getids\<close> fails, \<^verbatim>\<open>main\<close> ends before it
  starts any bucket.
\<close>

lemma getids_loop_accepts:
  "\<forall>l\<in>set lines. \<exists>v. Atoi l = Inr v \<Longrightarrow>
   getids_loop lines acc = Inr (acc @ map (\<lambda>l. word_of_int (projr (Atoi l))) lines)"
proof (induction lines arbitrary: acc)
  case Nil
  show ?case by simp
next
  case (Cons l lines)
  from Cons.prems obtain v where v: "Atoi l = Inr v" by auto
  from Cons.prems have "\<forall>l\<in>set lines. \<exists>v. Atoi l = Inr v" by simp
  from Cons.IH [OF this] show ?case by (simp add: v)
qed

lemma getids_loop_rejects:
  "\<exists>l\<in>set lines. \<exists>err. Atoi l = Inl err \<Longrightarrow> \<exists>err. getids_loop lines acc = Inl err"
proof (induction lines arbitrary: acc)
  case Nil
  then show ?case by simp
next
  case (Cons l lines)
  show ?case
  proof (cases "Atoi l")
    case (Inl err)
    then show ?thesis by simp
  next
    case (Inr v)
    with Cons.prems have "\<exists>l\<in>set lines. \<exists>err. Atoi l = Inl err" by auto
    from Cons.IH [OF this] show ?thesis by (simp add: Inr)
  qed
qed

lemma getids_accepts:
  "\<forall>l\<in>set lines. \<exists>v. Atoi l = Inr v \<Longrightarrow>
   getids (Some (lines, None)) = Inr (sort (map (\<lambda>l. word_of_int (projr (Atoi l))) lines))"
  by (simp add: getids_def getids_loop_accepts)

lemma getids_rejects:
  assumes "\<exists>l\<in>set lines. \<exists>err. Atoi l = Inl err"
  shows "\<exists>err. getids (Some (lines, scan_err)) = Inl err"
  using getids_loop_rejects [OF assms, of "[]"] by (auto simp: getids_def)

lemma getids_sorted: "getids idfile = Inr ids \<Longrightarrow> sorted ids"
  by (auto simp: getids_def split: option.splits sum.splits prod.splits)

lemma main_getids_fails:
  assumes "getids (id_file e) = Inl err"
  shows "snd (main idvar idfile targetdir sourcedir replace e) \<noteq> Done
     \<and> (\<forall>k. Go k \<notin> set (fst (main idvar idfile targetdir sourcedir replace e)))"
proof (cases "idvar = [] \<or> idfile = [] \<or> targetdir = [] \<or> sourcedir = []")
  case True
  then show ?thesis by (simp add: main_def)
next
  case False
  from check_events [of replace targetdir sourcedir "stat e"] show ?thesis
  proof
    assume c: "check replace targetdir sourcedir (stat e) = ([], None)"
    show ?thesis using False c assms
      by (simp add: main_def split: option.splits sum.splits)
  next
    assume c: "check replace targetdir sourcedir (stat e) = ([Stdout (MsgUseReplace targetdir)], Some 1)"
    show ?thesis using False c by (simp add: main_def)
  qed
qed

text \<open>
  Which lines \<^verbatim>\<open>strconv.Atoi\<close> accepts: a string of decimal digits is accepted
  with its value when the value is below \<open>2^63\<close> and is a range error from
  \<open>2^63\<close> on; after a \<^verbatim>\<open>-\<close> sign it is accepted, negated, up to \<open>2^63\<close>.
\<close>

lemma decimal_ge: "n \<le> decimal s n"
proof (induction s arbitrary: n)
  case Nil
  show ?case by simp
next
  case (Cons c s)
  have "n \<le> n * 10 + ((of_char c :: nat) - 48)" by simp
  also have "\<dots> \<le> decimal s (n * 10 + ((of_char c :: nat) - 48))" by (rule Cons.IH)
  finally show ?case by simp
qed

lemma ParseUint_loop_decimal:
  "\<forall>c\<in>set s. is_digit c \<Longrightarrow> decimal s n \<le> 18446744073709551615 \<Longrightarrow>
   ParseUint_loop s n = Inr (decimal s n)"
proof (induction s arbitrary: n)
  case Nil
  show ?case by simp
next
  case (Cons c s)
  let ?n' = "n * 10 + ((of_char c :: nat) - 48)"
  from Cons.prems(1) have d: "48 \<le> (of_char c :: nat) \<and> (of_char c :: nat) \<le> 57"
    and rest: "\<forall>c\<in>set s. is_digit c" by (simp_all add: is_digit_def)
  from Cons.prems(2) have v: "decimal s ?n' \<le> 18446744073709551615" by simp
  have "?n' \<le> decimal s ?n'" by (rule decimal_ge)
  with v have n': "?n' \<le> 18446744073709551615" by simp
  then have "n * 10 \<le> 18446744073709551615" by simp
  then have c1: "\<not> 18446744073709551615 div 10 + 1 \<le> n" by simp
  from n' have c2: "\<not> 18446744073709551615 < ?n'" by simp
  have "ParseUint_loop (c # s) n = ParseUint_loop s ?n'"
    by (simp only: ParseUint_loop.simps d c1 c2 if_True if_False simp_thms)
  with Cons.IH [OF rest v] show ?case by simp
qed

lemma ParseUint_loop_overflow:
  "\<forall>c\<in>set s. is_digit c \<Longrightarrow> 18446744073709551615 < decimal s n \<Longrightarrow>
   n \<le> 18446744073709551615 \<Longrightarrow> ParseUint_loop s n = Inl ErrRange"
proof (induction s arbitrary: n)
  case Nil
  then show ?case by simp
next
  case (Cons c s)
  let ?n' = "n * 10 + ((of_char c :: nat) - 48)"
  from Cons.prems(1) have d: "48 \<le> (of_char c :: nat) \<and> (of_char c :: nat) \<le> 57"
    and rest: "\<forall>c\<in>set s. is_digit c" by (simp_all add: is_digit_def)
  from Cons.prems(2) have v: "18446744073709551615 < decimal s ?n'" by simp
  show ?case
  proof (cases "18446744073709551615 div 10 + 1 \<le> n")
    case True
    then show ?thesis by (simp only: ParseUint_loop.simps d if_True simp_thms)
  next
    case c1: False
    show ?thesis
    proof (cases "18446744073709551615 < ?n'")
      case True
      then show ?thesis by (simp only: ParseUint_loop.simps d c1 if_True if_False simp_thms)
    next
      case c2: False
      then have n': "?n' \<le> 18446744073709551615" by simp
      have "ParseUint_loop (c # s) n = ParseUint_loop s ?n'"
        by (simp only: ParseUint_loop.simps d c1 c2 if_True if_False simp_thms)
      with Cons.IH [OF rest v n'] show ?thesis by simp
    qed
  qed
qed

lemma digit_not_sign: "is_digit c \<Longrightarrow> c \<noteq> CHR ''-'' \<and> c \<noteq> CHR ''+''"
  by (auto simp: is_digit_def)

lemma Atoi_unsigned_literal:
  assumes "s \<noteq> []" and "\<forall>c\<in>set s. is_digit c"
  shows "Atoi s = (if decimal s 0 < 2 ^ 63 then Inr (int (decimal s 0)) else Inl ErrRange)"
proof -
  from assms obtain c r where s: "s = c # r" by (cases s) auto
  with assms(2) have "is_digit c" by simp
  then have sign: "hd s \<noteq> CHR ''-''" "hd s \<noteq> CHR ''+''" using digit_not_sign s by auto
  show ?thesis
  proof (cases "decimal s 0 \<le> 18446744073709551615")
    case True
    from ParseUint_loop_decimal [OF assms(2) True]
    have "ParseUint s = Inr (decimal s 0)" using assms(1) by (simp add: ParseUint_def)
    then show ?thesis using assms(1) sign by (simp add: Atoi_def not_less)
  next
    case False
    then have "18446744073709551615 < decimal s 0" by simp
    from ParseUint_loop_overflow [OF assms(2) this]
    have "ParseUint s = Inl ErrRange" using assms(1) by (simp add: ParseUint_def)
    moreover have "\<not> decimal s 0 < 2 ^ 63" using False by simp
    ultimately show ?thesis using assms(1) sign by (simp add: Atoi_def)
  qed
qed

lemma Atoi_negative_literal:
  assumes "s \<noteq> []" and "\<forall>c\<in>set s. is_digit c" and "decimal s 0 \<le> 2 ^ 63"
  shows "Atoi (CHR ''-'' # s) = Inr (- int (decimal s 0))"
proof -
  have "decimal s 0 \<le> 18446744073709551615" using assms(3) by simp
  from ParseUint_loop_decimal [OF assms(2) this]
  have "ParseUint s = Inr (decimal s 0)" using assms(1) by (simp add: ParseUint_def)
  then show ?thesis using assms(3) by (simp add: Atoi_def)
qed

lemma Atoi_overflow_before_bad_character:
  "Atoi ''99999999999999999999x'' = Inl ErrRange \<and> Atoi ''12x'' = Inl ErrSyntax"
  by (simp add: Atoi_def ParseUint_def)

lemma getix_loop_max_key:
  "getix_loop [18446744073709551615]
     [1, 0, 0, 0, 0, 0, 0, 0, 255, 255, 255, 255, 255, 255, 255, 255] [] 0 0
   = Inr ([False, True], 1, 2)"
  by code_simp

lemma Uint64_max_key: "Uint64 [255, 255, 255, 255, 255, 255, 255, 255] = 18446744073709551615"
  by (simp add: Uint64_def)

text \<open>
  Claim C4 asks that \<^verbatim>\<open>getids\<close> accept every line that is an unsigned 64-bit
  integer literal and end in a fatal parse error on every line that is not one. The
  code does neither: it parses with the signed \<^verbatim>\<open>strconv.Atoi\<close> and converts with
  an unchecked \<^verbatim>\<open>uint64(id)\<close>. The line \<^verbatim>\<open>-1\<close> is accepted and becomes the
  identifier \<open>2^64 - 1\<close>, so that \<^verbatim>\<open>getix\<close> then selects the row whose key is
  \<open>2^64 - 1\<close>; and the unsigned literal \<^verbatim>\<open>18446744073709551615\<close> for that very
  key is a fatal range error.
\<close>

theorem getids_negative_line_accepted:
  "getids (Some ([''-1''], None)) = Inr [18446744073709551615]
   \<and> getix [18446744073709551615] ''id''
        \<lparr>dtypes_json = Some [(''id'', ''uint64'')],
         columns = [''id'' \<mapsto> [1, 0, 0, 0, 0, 0, 0, 0,
                                255, 255, 255, 255, 255, 255, 255, 255]]\<rparr>
       = Inr [False, True]
   \<and> getids (Some ([''18446744073709551615''], None)) = Inl ErrRange"
  by (simp add: getids_def Atoi_def ParseUint_def getix_def getix_loop_max_key)

section \<open>The scheduler\<close>




lemma send_blocked_when_full:
  assumes "step N s s'" and "sem s = concurrency" and "main_pc s = Loop k"
  shows "main_pc s' \<noteq> Launch k"
  using assms by (induction rule: step.induct) auto







end
